theory Spec2Isabelle
  imports Main
begin

section \<open>Go runtime: panics, indexing, slicing, number formatting\<close>

text \<open>
  The consensus module of \<^verbatim>\<open>src/server/cmodule.go\<close> is embedded as pure functions
  over a record of the fields of \<^verbatim>\<open>ConsensusModule\<close>. A run-time panic of the Go
  program is the left summand of the result. Go's \<^verbatim>\<open>int\<close> is modelled by the
  unbounded \<open>int\<close>: list lengths, vote counts and indices stay far below \<open>2^63\<close>; the one
  increment of a stored term wraps explicitly.
\<close>

datatype panic =
    IndexOutOfRange
  | SliceBoundsOutOfRange
  | DivideByZero
  | InvalidIntnArgument
  | TypeAssertion
  | PanicMsg string

text \<open>\<^verbatim>\<open>xs[i]\<close>: panics unless \<open>0 \<le> i < len(xs)\<close>.\<close>

definition go_index :: "'a list \<Rightarrow> int \<Rightarrow> panic + 'a" where
  "go_index xs i =
     (if 0 \<le> i \<and> i < int (length xs) then Inr (xs ! nat i) else Inl IndexOutOfRange)"

text \<open>
  \<^verbatim>\<open>xs[lo:hi]\<close> on a slice whose backing array holds the elements \<open>spare\<close> past
  the length of \<open>xs\<close>. Go checks \<open>0 \<le> lo \<le> hi \<le> cap(xs)\<close>, so a bound past the
  length but within the capacity reads what the backing array holds there.
\<close>

definition go_slice :: "'a list \<Rightarrow> 'a list \<Rightarrow> int \<Rightarrow> int \<Rightarrow> panic + 'a list" where
  "go_slice xs spare lo hi =
     (if 0 \<le> lo \<and> lo \<le> hi \<and> hi \<le> int (length xs) + int (length spare)
      then Inr (take (nat (hi - lo)) (drop (nat lo) (xs @ spare)))
      else Inl SliceBoundsOutOfRange)"

text \<open>\<^verbatim>\<open>xs[lo:]\<close>: the upper bound is the length, so only \<open>0 \<le> lo \<le> len(xs)\<close> is checked.\<close>

definition go_slice_from :: "'a list \<Rightarrow> int \<Rightarrow> panic + 'a list" where
  "go_slice_from xs lo =
     (if 0 \<le> lo \<and> lo \<le> int (length xs) then Inr (drop (nat lo) xs)
      else Inl SliceBoundsOutOfRange)"

text \<open>Go's integer division truncates toward zero and panics on a zero divisor.\<close>

definition go_div :: "int \<Rightarrow> int \<Rightarrow> panic + int" where
  "go_div a b =
     (if b = 0 then Inl DivideByZero else Inr (sgn a * sgn b * (\<bar>a\<bar> div \<bar>b\<bar>)))"

definition int64_wrap :: "int \<Rightarrow> int" where
  "int64_wrap x = (x + 2 ^ 63) mod 2 ^ 64 - 2 ^ 63"

definition intMin :: "int \<Rightarrow> int \<Rightarrow> int" where
  "intMin a b = (if a < b then a else b)"

definition digit_char :: "nat \<Rightarrow> char" where
  "digit_char d = ''0123456789abcdef'' ! d"

fun dec_nat :: "nat \<Rightarrow> string" where
  "dec_nat n = (if n < 10 then [digit_char n] else dec_nat (n div 10) @ [digit_char (n mod 10)])"

fun hex_nat :: "nat \<Rightarrow> string" where
  "hex_nat n = (if n < 16 then [digit_char n] else hex_nat (n div 16) @ [digit_char (n mod 16)])"

declare dec_nat.simps [simp del] hex_nat.simps [simp del]

text \<open>\<^verbatim>\<open>strconv.Itoa(i)\<close>.\<close>

definition Itoa :: "int \<Rightarrow> string" where
  "Itoa i = (if i < 0 then CHR ''-'' # dec_nat (nat (- i)) else dec_nat (nat i))"

text \<open>\<^verbatim>\<open>fmt.Sprintf("%x", i)\<close> for an \<^verbatim>\<open>int\<close>.\<close>

definition Sprintf_x :: "int \<Rightarrow> string" where
  "Sprintf_x i = (if i < 0 then CHR ''-'' # hex_nat (nat (- i)) else hex_nat (nat i))"

text \<open>\<^verbatim>\<open>fmt.Sprintf("%x", bytes)\<close>: two lowercase hexadecimal digits per byte.\<close>

definition Sprintf_x_bytes :: "string \<Rightarrow> string" where
  "Sprintf_x_bytes bs =
     concat (map (\<lambda>c. [digit_char (of_char c div 16), digit_char (of_char c mod 16)]) bs)"

definition is_digit :: "char \<Rightarrow> bool" where
  "is_digit c = (48 \<le> (of_char c :: nat) \<and> (of_char c :: nat) \<le> 57)"

datatype NumError = ErrSyntax | ErrRange

text \<open>
  The digit loop of \<^verbatim>\<open>strconv.ParseUint(s, 10, 64)\<close> with the value \<open>n\<close> read so far:
  a byte that is no decimal digit is a syntax error; a digit that would take the value
  past \<open>2^64 - 1\<close> is a range error, returned at that digit.
\<close>

fun parse_digits :: "string \<Rightarrow> int \<Rightarrow> NumError + int" where
  "parse_digits [] n = Inr n"
| "parse_digits (c # cs) n =
     (if \<not> is_digit c then Inl ErrSyntax
      else if n \<ge> (2 ^ 64 - 1) div 10 + 1 then Inl ErrRange
      else if n * 10 + (of_char c - 48) > 2 ^ 64 - 1 then Inl ErrRange
      else parse_digits cs (n * 10 + (of_char c - 48)))"

definition ParseUint :: "string \<Rightarrow> NumError + int" where
  "ParseUint s = (if s = [] then Inl ErrSyntax else parse_digits s 0)"

text \<open>
  \<^verbatim>\<open>v, _ := strconv.Atoi(s)\<close> with a 64-bit \<^verbatim>\<open>int\<close>: every caller in the module
  drops the error and keeps the value, which is \<open>0\<close> on a syntax error and the bound
  of the sign's side on a range error. (The fast path of \<^verbatim>\<open>Atoi\<close> for short strings
  returns the same values as \<^verbatim>\<open>ParseInt\<close>, which is followed here.)
\<close>

definition Atoi :: "string \<Rightarrow> int" where
  "Atoi s =
     (if s = [] then 0
      else
        (let neg = (hd s = CHR ''-'');
             ds = (if hd s = CHR ''+'' \<or> hd s = CHR ''-'' then tl s else s)
         in case ParseUint ds of
              Inl ErrSyntax \<Rightarrow> 0
            | Inl ErrRange \<Rightarrow> (if neg then - (2 ^ 63) else 2 ^ 63 - 1)
            | Inr un \<Rightarrow>
                if \<not> neg \<and> un \<ge> 2 ^ 63 then 2 ^ 63 - 1
                else if neg \<and> un > 2 ^ 63 then - (2 ^ 63)
                else if neg then - un else un))"

text \<open>A Go \<^verbatim>\<open>map[int]int\<close> read at a missing key yields the zero value.\<close>

definition map_get :: "(int \<rightharpoonup> int) \<Rightarrow> int \<Rightarrow> int" where
  "map_get m k = (case m k of None \<Rightarrow> 0 | Some v \<Rightarrow> v)"

section \<open>Data model\<close>

datatype CMState = Follower | Candidate | Leader | Dead

text \<open>
  \<^verbatim>\<open>Service\<close> is declared outside \<^verbatim>\<open>cmodule.go\<close>; the module builds it from two
  strings (\<^verbatim>\<open>ServiceID\<close> and a \<^verbatim>\<open>Type\<close> of the string type \<^verbatim>\<open>SType\<close>).
\<close>

record Service =
  ServiceID :: string
  Type :: string

record LogEntry =
  Command :: Service
  Term :: int
  LeaderId :: int
  Index :: int
  ChosenId :: int

record CommitEntry =
  Command_ce :: Service
  Index_ce :: int
  Term_ce :: int
  ChosenId_ce :: int

text \<open>
  The fields of \<^verbatim>\<open>ConsensusModule\<close> that hold data. The mutex, the server handle,
  the channels and the storage handle appear as events; \<^verbatim>\<open>electionResetEvent\<close> is a
  wall-clock time and is left out.
\<close>

record ConsensusModule =
  cm_id :: int
  peerIds :: "int list"
  loadLevel :: int
  loadLevelMap :: "int \<rightharpoonup> int"
  currentTerm :: int
  votedFor :: int
  log :: "LogEntry list"
  commitIndex :: int
  lastApplied :: int
  state :: CMState
  nextIndex :: "int \<rightharpoonup> int"
  matchIndex :: "int \<rightharpoonup> int"

text \<open>Values of \<^verbatim>\<open>interface{}\<close> that the module stores in, or reads from, the store.\<close>

datatype Value =
    VString string
  | VService Service
  | VObject "(string \<times> Value) list"

type_synonym TermData = "string \<rightharpoonup> Value"

text \<open>
  What the module does to the outside, in program order: calls of the store, sends on
  its channels, goroutines it starts.
\<close>

datatype Event =
    StorageSet TermData
  | GoReceiveService TermData int
  | GoSendService
  | TriggerAE
  | SubmitDone
  | NewCommitReady
  | ResumeSignal
  | GoHeartbeatLoop
  | Commit CommitEntry
  | Sleep int

text \<open>
  Inputs the program takes from its environment at a call: the SHA-512 function of
  \<^verbatim>\<open>crypto/sha512\<close> (64 bytes out), the \<^verbatim>\<open>%v\<close> rendering of a \<^verbatim>\<open>Service\<close>
  (its declaration, and any \<^verbatim>\<open>String\<close> method, lie outside the module), the order in
  which a \<^verbatim>\<open>range\<close> visits the keys of \<^verbatim>\<open>termData\<close> and of \<^verbatim>\<open>loadLevelMap\<close>
  (Go leaves it unspecified; each list is meant to enumerate the keys of its map), and
  the number \<^verbatim>\<open>math/rand\<close> draws, from which \<^verbatim>\<open>rand.Intn(n)\<close> is taken modulo \<open>n\<close>.
  The rendering of a decoded object is a parameter as well; the module never renders one.
  \<open>logSpare\<close> is what the backing array of \<^verbatim>\<open>cm.log\<close> holds past the length of the
  slice when the call begins (entries cut off by an earlier truncation, or zero values
  of a grown array); it matters only where a slice bound passes the length.
\<close>

record Env =
  sha512 :: "string \<Rightarrow> string"
  fmtService :: "Service \<Rightarrow> string"
  fmtObject :: "(string \<times> Value) list \<Rightarrow> string"
  termDataOrder :: "string list"
  loadLevelOrder :: "int list"
  randDraw :: nat
  logSpare :: "LogEntry list"

section \<open>Persistence\<close>

text \<open>\<^verbatim>\<open>fmt.Sprintf("%v", v)\<close> for the values \<^verbatim>\<open>persistToStorage\<close> stores.\<close>

fun Sprintf_v :: "Env \<Rightarrow> Value \<Rightarrow> string" where
  "Sprintf_v env (VString s) = s"
| "Sprintf_v env (VService c) = fmtService env c"
| "Sprintf_v env (VObject kvs) = fmtObject env kvs"

text \<open>\<^verbatim>\<open>for _, v := range m\<close>: the values of \<open>m\<close> in the order the keys are visited.\<close>

definition range_values :: "(string \<rightharpoonup> Value) \<Rightarrow> string list \<Rightarrow> Value list" where
  "range_values m ks = List.map_filter m ks"

definition checkIfChosen :: "ConsensusModule \<Rightarrow> int \<Rightarrow> bool" where
  "checkIfChosen cm peerId = (cm_id cm = peerId)"

text \<open>The six entries \<^verbatim>\<open>persistToStorage\<close> assigns before it ranges over the map.\<close>

definition termData_fields :: "ConsensusModule \<Rightarrow> int \<Rightarrow> LogEntry \<Rightarrow> TermData" where
  "termData_fields cm last' e =
     [''Id'' \<mapsto> VString (Sprintf_x last'),
      ''Term'' \<mapsto> VString (Itoa (currentTerm cm)),
      ''Command'' \<mapsto> VService (Command e),
      ''Leader'' \<mapsto> VString (Itoa (LeaderId e)),
      ''Chosen'' \<mapsto> VString (Itoa (ChosenId e)),
      ''VotedFor'' \<mapsto> VString (Itoa (votedFor cm))]"

text \<open>The bytes \<^verbatim>\<open>sum\<close> that are hashed.\<close>

definition checksum_input :: "Env \<Rightarrow> TermData \<Rightarrow> string" where
  "checksum_input env td = concat (map (Sprintf_v env) (range_values td (termDataOrder env)))"

definition persistToStorage :: "Env \<Rightarrow> ConsensusModule \<Rightarrow> panic + TermData \<times> Event list" where
  "persistToStorage env cm =
     (let last' = (if int (length (log cm)) - 1 < 0 then 0 else int (length (log cm)) - 1)
      in case go_index (log cm) last' of
           Inl p \<Rightarrow> Inl p
         | Inr e \<Rightarrow>
             (let td = termData_fields cm last' e;
                  termData = td(''checksum'' \<mapsto>
                               VString (Sprintf_x_bytes (sha512 env (checksum_input env td))))
              in Inr (termData,
                      StorageSet termData #
                      (if checkIfChosen cm (ChosenId e)
                       then (if state cm \<noteq> Leader then [GoReceiveService termData (LeaderId e)]
                             else [])
                       else if state cm = Leader then [GoSendService] else []))))"

text \<open>
  Modelled from the spec: the durable store (package \<^verbatim>\<open>storage\<close>) is not part of the
  sources. Section 4.1 gives it named scalars read by \<^verbatim>\<open>Get\<close>, an ordered record
  sequence read by \<^verbatim>\<open>GetLog\<close>, and \<^verbatim>\<open>HasData\<close>. Only what the module reads back is
  represented; a record comes back with its command as a decoded object.
\<close>

record Storage =
  scalars :: "(string \<times> Value) list"
  records :: "TermData list"

definition Get :: "Storage \<Rightarrow> string \<Rightarrow> Value option" where
  "Get st name = map_of (scalars st) name"

definition GetLog :: "Storage \<Rightarrow> TermData list" where
  "GetLog st = records st"

definition HasData :: "Storage \<Rightarrow> bool" where
  "HasData st = (length (scalars st) + length (records st) > 0)"

text \<open>The type assertions \<^verbatim>\<open>v.(string)\<close> and \<^verbatim>\<open>v.(map[string]interface{})\<close>.\<close>

definition assertString :: "Value option \<Rightarrow> panic + string" where
  "assertString v = (case v of Some (VString s) \<Rightarrow> Inr s | _ \<Rightarrow> Inl TypeAssertion)"

definition assertObject :: "Value option \<Rightarrow> panic + (string \<times> Value) list" where
  "assertObject v = (case v of Some (VObject kvs) \<Rightarrow> Inr kvs | _ \<Rightarrow> Inl TypeAssertion)"

text \<open>The body of the loop of \<^verbatim>\<open>restoreFromStorage\<close> for record \<open>i\<close> of \<open>n\<close>.\<close>

definition restoreEntry :: "nat \<Rightarrow> nat \<Rightarrow> TermData \<Rightarrow> panic + LogEntry" where
  "restoreEntry n i r =
     (case assertString (r ''Term'') of Inl p \<Rightarrow> Inl p | Inr t \<Rightarrow>
      case assertString (r ''Leader'') of Inl p \<Rightarrow> Inl p | Inr l \<Rightarrow>
      case assertString (r ''Chosen'') of Inl p \<Rightarrow> Inl p | Inr c \<Rightarrow>
      case assertObject (r ''Command'') of Inl p \<Rightarrow> Inl p | Inr o1 \<Rightarrow>
      case assertString (map_of o1 ''ServiceID'') of Inl p \<Rightarrow> Inl p | Inr sid \<Rightarrow>
      case assertObject (r ''Command'') of Inl p \<Rightarrow> Inl p | Inr o2 \<Rightarrow>
      case assertString (map_of o2 ''Type'') of Inl p \<Rightarrow> Inl p | Inr ty \<Rightarrow>
        Inr \<lparr>Command = \<lparr>ServiceID = sid, Type = ty\<rparr>,
             Term = Atoi t,
             LeaderId = Atoi l,
             Index = int n - int i - 1,
             ChosenId = Atoi c\<rparr>)"

text \<open>\<^verbatim>\<open>for i, log := range logs\<close>, appending to \<^verbatim>\<open>cm.log\<close>.\<close>

fun restoreLoop :: "nat \<Rightarrow> nat \<Rightarrow> TermData list \<Rightarrow> LogEntry list \<Rightarrow> panic + LogEntry list" where
  "restoreLoop n i [] acc = Inr acc"
| "restoreLoop n i (r # rs) acc =
     (case restoreEntry n i r of
        Inl p \<Rightarrow> Inl p
      | Inr e \<Rightarrow> restoreLoop n (Suc i) rs (acc @ [e]))"

definition restoreFromStorage :: "Storage \<Rightarrow> ConsensusModule \<Rightarrow> panic + ConsensusModule" where
  "restoreFromStorage st cm =
     (case Get st ''Term'' of
        None \<Rightarrow> Inl (PanicMsg ''no Term found in storage'')
      | Some t \<Rightarrow>
     (case assertString (Some t) of Inl p \<Rightarrow> Inl p | Inr ts \<Rightarrow>
     (case Get st ''VotedFor'' of
        None \<Rightarrow> Inl (PanicMsg ''no VotedFor found in storage'')
      | Some v \<Rightarrow>
     (case assertString (Some v) of Inl p \<Rightarrow> Inl p | Inr vs \<Rightarrow>
     (case restoreLoop (length (GetLog st)) 0 (GetLog st) (log cm) of
        Inl p \<Rightarrow> Inl p
      | Inr lg \<Rightarrow> Inr (cm\<lparr>currentTerm := Atoi ts, votedFor := Atoi vs, log := lg\<rparr>))))))"

text \<open>The state \<^verbatim>\<open>NewConsensusModule\<close> builds, restored from the store when it has data.\<close>

definition NewConsensusModule :: "int \<Rightarrow> Storage \<Rightarrow> panic + ConsensusModule" where
  "NewConsensusModule i st =
     (let cm = \<lparr>cm_id = i, peerIds = [], loadLevel = 10, loadLevelMap = Map.empty,
                currentTerm = 0, votedFor = - 1, log = [], commitIndex = - 1,
                lastApplied = - 1, state = Follower, nextIndex = Map.empty,
                matchIndex = Map.empty\<rparr>
      in if HasData st then restoreFromStorage st cm else Inr cm)"

section \<open>Submit and placement\<close>

text \<open>
  The loop of \<^verbatim>\<open>minLoadLevelMap\<close> over the keys in the order they are visited; the
  loop state is \<^verbatim>\<open>(lowestPeers, lastPeer, lowestLoad)\<close>.
\<close>

fun minLoadLoop :: "(int \<rightharpoonup> int) \<Rightarrow> int list \<Rightarrow> int list \<times> int \<times> int \<Rightarrow> int list \<times> int \<times> int" where
  "minLoadLoop m [] s = s"
| "minLoadLoop m (peerId # ks) (lowestPeers, lastPeer, lowestLoad) =
     (let load = map_get m peerId;
          ok = (m lastPeer \<noteq> None)
      in minLoadLoop m ks
           (if \<not> ok \<or> load < lowestLoad then ([peerId], peerId, load)
            else if load = lowestLoad then (lowestPeers @ [peerId], peerId, lowestLoad)
            else (lowestPeers, peerId, lowestLoad)))"

definition minLoadLevelMap :: "Env \<Rightarrow> ConsensusModule \<Rightarrow> panic + int" where
  "minLoadLevelMap env cm =
     (let lowestPeers = fst (minLoadLoop (loadLevelMap cm) (loadLevelOrder env) ([], 0, 11))
      in if length lowestPeers = 0 then Inl InvalidIntnArgument
         else go_index lowestPeers (int (randDraw env mod length lowestPeers)))"

definition Submit :: "Env \<Rightarrow> ConsensusModule \<Rightarrow> Service \<Rightarrow> panic + ConsensusModule \<times> Event list" where
  "Submit env cm command =
     (if state cm = Leader then
        (case minLoadLevelMap env cm of
           Inl p \<Rightarrow> Inl p
         | Inr chosenId \<Rightarrow>
             (let cm' = cm\<lparr>log := log cm @
                          [\<lparr>Command = command, Term = currentTerm cm, LeaderId = cm_id cm,
                            Index = int (length (log cm)), ChosenId = chosenId\<rparr>]\<rparr>
              in case persistToStorage env cm' of
                   Inl p \<Rightarrow> Inl p
                 | Inr (td, evs) \<Rightarrow> Inr (cm', evs @ [TriggerAE, SubmitDone])))
      else Inr (cm, [SubmitDone]))"

section \<open>Election\<close>

definition lastLogIndexAndTerm :: "ConsensusModule \<Rightarrow> int \<times> int" where
  "lastLogIndexAndTerm cm =
     (if length (log cm) > 0
      then (int (length (log cm)) - 1, Term (log cm ! (length (log cm) - 1)))
      else (- 1, - 1))"

definition becomeFollower :: "ConsensusModule \<Rightarrow> int \<Rightarrow> ConsensusModule" where
  "becomeFollower cm term = cm\<lparr>state := Follower, currentTerm := term, votedFor := - 1\<rparr>"

record RequestVoteArgs =
  Term_rv :: int
  CandidateId :: int
  LastLogIndex :: int
  LastLogTerm :: int
  LoadLevel_rv :: int

record RequestVoteReply =
  Term_rvr :: int
  VoteGranted :: bool
  LoadLevel_rvr :: int

text \<open>\<^verbatim>\<open>runVoteDelay\<close>: sleeps \<open>100 / loadLevel\<close> milliseconds.\<close>

definition runVoteDelay :: "int \<Rightarrow> panic + Event list" where
  "runVoteDelay l = (case go_div 100 l of Inl p \<Rightarrow> Inl p | Inr d \<Rightarrow> Inr [Sleep d])"

text \<open>
  The handler runs as one step: the mutex is released around the delay, and what other
  goroutines do in that window is outside this function. The reply is the caller's
  struct, updated in place. The argument \<open>1000 / LoadLevel\<close> of the log line in the
  granting branch is evaluated before the vote is recorded.
\<close>

definition RequestVote ::
  "ConsensusModule \<Rightarrow> RequestVoteArgs \<Rightarrow> RequestVoteReply \<Rightarrow>
   panic + ConsensusModule \<times> RequestVoteReply \<times> Event list" where
  "RequestVote cm args reply =
     (if state cm = Dead then Inr (cm, reply, [])
      else
        (let lastLogIndex = fst (lastLogIndexAndTerm cm);
             lastLogTerm = snd (lastLogIndexAndTerm cm);
             cm1 = (if Term_rv args > currentTerm cm then becomeFollower cm (Term_rv args) else cm)
         in case (if state cm1 \<noteq> Candidate then runVoteDelay (LoadLevel_rv args) else Inr []) of
              Inl p \<Rightarrow> Inl p
            | Inr evs \<Rightarrow>
                if currentTerm cm1 = Term_rv args \<and>
                   (votedFor cm1 = - 1 \<or> votedFor cm1 = CandidateId args) \<and>
                   (LastLogTerm args > lastLogTerm \<or>
                    (LastLogTerm args = lastLogTerm \<and> LastLogIndex args \<ge> lastLogIndex))
                then (case go_div 1000 (LoadLevel_rv args) of
                        Inl p \<Rightarrow> Inl p
                      | Inr d \<Rightarrow>
                          Inr (cm1\<lparr>votedFor := CandidateId args\<rparr>,
                               reply\<lparr>VoteGranted := True, LoadLevel_rvr := loadLevel cm1,
                                     Term_rvr := currentTerm cm1\<rparr>,
                               evs))
                else Inr (cm1, reply\<lparr>VoteGranted := False, Term_rvr := currentTerm cm1\<rparr>, evs)))"

definition startLeader :: "ConsensusModule \<Rightarrow> ConsensusModule \<times> Event list" where
  "startLeader cm =
     (cm\<lparr>state := Leader,
         nextIndex := fold (\<lambda>peerId m. m(peerId \<mapsto> int (length (log cm)))) (peerIds cm) (nextIndex cm),
         matchIndex := fold (\<lambda>peerId m. m(peerId \<mapsto> - 1)) (peerIds cm) (matchIndex cm)\<rparr>,
      [ResumeSignal, GoHeartbeatLoop])"

text \<open>
  \<^verbatim>\<open>StartElection\<close> up to the start of the per-peer goroutines: the new state, the
  saved term and the initial value of \<^verbatim>\<open>votesReceived\<close>.
\<close>

definition StartElection :: "ConsensusModule \<Rightarrow> ConsensusModule \<times> int \<times> int" where
  "StartElection cm =
     (let cm1 = cm\<lparr>state := Candidate, currentTerm := int64_wrap (currentTerm cm + 1)\<rparr>;
          savedCurrentTerm = currentTerm cm1;
          cm2 = cm1\<lparr>votedFor := cm_id cm1\<rparr>;
          votesReceived = 1
      in (cm2\<lparr>loadLevelMap := (loadLevelMap cm2)(cm_id cm2 \<mapsto> loadLevel cm2)\<rparr>,
          savedCurrentTerm, votesReceived))"

text \<open>
  The body a per-peer goroutine of \<^verbatim>\<open>StartElection\<close> runs under the mutex when the
  reply of \<open>peerId\<close> has arrived; \<open>votesReceived\<close> is the counter the goroutines share.
\<close>

definition onRequestVoteReply ::
  "ConsensusModule \<Rightarrow> int \<Rightarrow> int \<Rightarrow> int \<Rightarrow> RequestVoteReply \<Rightarrow> ConsensusModule \<times> int \<times> Event list" where
  "onRequestVoteReply cm savedCurrentTerm votesReceived peerId reply =
     (let cm1 = cm\<lparr>loadLevelMap := (loadLevelMap cm)(peerId \<mapsto> LoadLevel_rvr reply)\<rparr>
      in if state cm1 \<noteq> Candidate then (cm1, votesReceived, [])
         else if Term_rvr reply > savedCurrentTerm
              then (becomeFollower cm1 (Term_rvr reply), votesReceived, [])
         else if Term_rvr reply = savedCurrentTerm then
           (if VoteGranted reply then
              (let votes = votesReceived + 1
               in if votes * 2 > int (length (peerIds cm1))
                  then (fst (startLeader cm1), votes, snd (startLeader cm1))
                  else (cm1, votes, []))
            else (cm1, votesReceived, []))
         else (cm1, votesReceived, []))"

section \<open>AppendEntries\<close>

record AppendEntriesArgs =
  Term_ae :: int
  LeaderId_ae :: int
  PrevLogIndex :: int
  PrevLogTerm :: int
  Entries :: "LogEntry list"
  LeaderCommit :: int
  ChosenId_ae :: int

record AppendEntriesReply =
  Term_aer :: int
  Success :: bool
  ConflictIndex :: int
  ConflictTerm :: int

text \<open>
  The condition \<^verbatim>\<open>PrevLogIndex == -1 || (PrevLogIndex < len(log) && PrevLogTerm ==
  log[PrevLogIndex].Term)\<close>, with the index expression evaluated as Go does.
\<close>

definition prevEntryMatches :: "ConsensusModule \<Rightarrow> AppendEntriesArgs \<Rightarrow> panic + bool" where
  "prevEntryMatches cm args =
     (if PrevLogIndex args = - 1 then Inr True
      else if PrevLogIndex args < int (length (log cm)) then
        (case go_index (log cm) (PrevLogIndex args) of
           Inl p \<Rightarrow> Inl p
         | Inr e \<Rightarrow> Inr (PrevLogTerm args = Term e))
      else Inr False)"

text \<open>The loop that finds the insertion point: \<^verbatim>\<open>(logInsertIndex, newEntriesIndex)\<close>.\<close>

function findInsertionPoint ::
  "LogEntry list \<Rightarrow> LogEntry list \<Rightarrow> int \<Rightarrow> int \<Rightarrow> panic + int \<times> int" where
  "findInsertionPoint lg es logInsertIndex newEntriesIndex =
     (if logInsertIndex \<ge> int (length lg) \<or> newEntriesIndex \<ge> int (length es)
      then Inr (logInsertIndex, newEntriesIndex)
      else (case go_index lg logInsertIndex of
              Inl p \<Rightarrow> Inl p
            | Inr a \<Rightarrow>
                (case go_index es newEntriesIndex of
                   Inl p \<Rightarrow> Inl p
                 | Inr b \<Rightarrow>
                     if Term a \<noteq> Term b then Inr (logInsertIndex, newEntriesIndex)
                     else findInsertionPoint lg es (logInsertIndex + 1) (newEntriesIndex + 1))))"
  by pat_completeness auto
termination
  by (relation "measure (\<lambda>(lg, es, li, ni). nat (int (length es) - ni))") auto

declare findInsertionPoint.simps [simp del]

text \<open>The branch taken when the previous entry matches.\<close>

definition AppendEntries_matched ::
  "Env \<Rightarrow> ConsensusModule \<Rightarrow> AppendEntriesArgs \<Rightarrow> AppendEntriesReply \<Rightarrow>
   panic + ConsensusModule \<times> AppendEntriesReply \<times> Event list" where
  "AppendEntries_matched env cm args reply =
     (case findInsertionPoint (log cm) (Entries args) (PrevLogIndex args + 1) 0 of
        Inl p \<Rightarrow> Inl p
      | Inr (logInsertIndex, newEntriesIndex) \<Rightarrow>
     (case (if newEntriesIndex < int (length (Entries args)) then
              (case go_slice_from (Entries args) newEntriesIndex of
                 Inl p \<Rightarrow> Inl p
               | Inr new \<Rightarrow>
              (case go_slice (log cm) (logSpare env) 0 logInsertIndex of
                 Inl p \<Rightarrow> Inl p
               | Inr keep \<Rightarrow>
              (case persistToStorage env (cm\<lparr>log := keep @ new\<rparr>) of
                 Inl p \<Rightarrow> Inl p
               | Inr (td, evs) \<Rightarrow> Inr (cm\<lparr>log := keep @ new\<rparr>, evs))))
            else Inr (cm, [])) of
        Inl p \<Rightarrow> Inl p
      | Inr (cm1, evs) \<Rightarrow>
          (if LeaderCommit args > commitIndex cm1
           then Inr (cm1\<lparr>commitIndex := intMin (LeaderCommit args) (int (length (log cm1)) - 1)\<rparr>,
                     reply\<lparr>Success := True\<rparr>, evs @ [NewCommitReady])
           else Inr (cm1, reply\<lparr>Success := True\<rparr>, evs))))"

text \<open>
  The backward scan \<^verbatim>\<open>for i = PrevLogIndex - 1; i >= 0; i--\<close>; the result is the value
  of \<open>i\<close> when the loop ends.
\<close>

function conflictScan :: "LogEntry list \<Rightarrow> int \<Rightarrow> int \<Rightarrow> panic + int" where
  "conflictScan lg conflictTerm i =
     (if i \<ge> 0 then
        (case go_index lg i of
           Inl p \<Rightarrow> Inl p
         | Inr e \<Rightarrow> if Term e \<noteq> conflictTerm then Inr i else conflictScan lg conflictTerm (i - 1))
      else Inr i)"
  by pat_completeness auto
termination
  by (relation "measure (\<lambda>(lg, ct, i). nat (i + 1))") auto

declare conflictScan.simps [simp del]

text \<open>The branch taken when the previous entry does not match.\<close>

definition AppendEntries_conflict ::
  "ConsensusModule \<Rightarrow> AppendEntriesArgs \<Rightarrow> AppendEntriesReply \<Rightarrow> panic + AppendEntriesReply" where
  "AppendEntries_conflict cm args reply =
     (if PrevLogIndex args \<ge> int (length (log cm))
      then Inr (reply\<lparr>ConflictIndex := int (length (log cm)), ConflictTerm := - 1\<rparr>)
      else (case go_index (log cm) (PrevLogIndex args) of
              Inl p \<Rightarrow> Inl p
            | Inr e \<Rightarrow>
                (case conflictScan (log cm) (Term e) (PrevLogIndex args - 1) of
                   Inl p \<Rightarrow> Inl p
                 | Inr i \<Rightarrow> Inr (reply\<lparr>ConflictTerm := Term e, ConflictIndex := i + 1\<rparr>))))"

definition AppendEntries ::
  "Env \<Rightarrow> ConsensusModule \<Rightarrow> AppendEntriesArgs \<Rightarrow> AppendEntriesReply \<Rightarrow>
   panic + ConsensusModule \<times> AppendEntriesReply \<times> Event list" where
  "AppendEntries env cm args reply =
     (if state cm = Dead then Inr (cm, reply, [])
      else
        (let cm1 = (if Term_ae args > currentTerm cm then becomeFollower cm (Term_ae args) else cm);
             reply1 = reply\<lparr>Success := False\<rparr>
         in if Term_ae args = currentTerm cm1 then
              (let cm2 = (if state cm1 \<noteq> Follower then becomeFollower cm1 (Term_ae args) else cm1)
               in case prevEntryMatches cm2 args of
                    Inl p \<Rightarrow> Inl p
                  | Inr True \<Rightarrow>
                      (case AppendEntries_matched env cm2 args reply1 of
                         Inl p \<Rightarrow> Inl p
                       | Inr (cm3, reply2, evs) \<Rightarrow>
                           Inr (cm3, reply2\<lparr>Term_aer := currentTerm cm3\<rparr>, evs))
                  | Inr False \<Rightarrow>
                      (case AppendEntries_conflict cm2 args reply1 of
                         Inl p \<Rightarrow> Inl p
                       | Inr reply2 \<Rightarrow> Inr (cm2, reply2\<lparr>Term_aer := currentTerm cm2\<rparr>, [])))
            else Inr (cm1, reply1\<lparr>Term_aer := currentTerm cm1\<rparr>, [])))"

section \<open>Leader: replies to AppendEntries\<close>

text \<open>The inner loop over \<^verbatim>\<open>cm.peerIds\<close> that counts \<^verbatim>\<open>matchCount\<close>.\<close>

fun matchCountLoop :: "(int \<rightharpoonup> int) \<Rightarrow> int \<Rightarrow> int list \<Rightarrow> int \<Rightarrow> int" where
  "matchCountLoop mi i [] matchCount = matchCount"
| "matchCountLoop mi i (peerId # ps) matchCount =
     matchCountLoop mi i ps (if map_get mi peerId \<ge> i then matchCount + 1 else matchCount)"

text \<open>The loop \<^verbatim>\<open>for i := cm.commitIndex + 1; i < len(cm.log); i++\<close>, from \<open>i\<close> on.\<close>

function commitLoop :: "ConsensusModule \<Rightarrow> int \<Rightarrow> panic + ConsensusModule" where
  "commitLoop cm i =
     (if i < int (length (log cm)) then
        (case go_index (log cm) i of
           Inl p \<Rightarrow> Inl p
         | Inr e \<Rightarrow>
             commitLoop
               (if Term e = currentTerm cm then
                  (if matchCountLoop (matchIndex cm) i (peerIds cm) 1 * 2 >
                      int (length (peerIds cm)) + 1
                   then cm\<lparr>commitIndex := i\<rparr> else cm)
                else cm)
               (i + 1))
      else Inr cm)"
  by pat_completeness auto
termination
  by (relation "measure (\<lambda>(cm, i). nat (int (length (log cm)) - i))") auto

declare commitLoop.simps [simp del]

text \<open>The scan for the last index of \<^verbatim>\<open>reply.ConflictTerm\<close> in the leader's log.\<close>

function lastIndexOfTermLoop :: "LogEntry list \<Rightarrow> int \<Rightarrow> int \<Rightarrow> panic + int" where
  "lastIndexOfTermLoop lg conflictTerm i =
     (if i \<ge> 0 then
        (case go_index lg i of
           Inl p \<Rightarrow> Inl p
         | Inr e \<Rightarrow> if Term e = conflictTerm then Inr i
                    else lastIndexOfTermLoop lg conflictTerm (i - 1))
      else Inr (- 1))"
  by pat_completeness auto
termination
  by (relation "measure (\<lambda>(lg, ct, i). nat (i + 1))") auto

declare lastIndexOfTermLoop.simps [simp del]

text \<open>
  The body a per-peer goroutine of \<^verbatim>\<open>leaderSendAEs\<close> runs under the mutex when the
  reply has arrived; \<open>ni\<close> and \<open>entries\<close> are what the goroutine read before the call.
\<close>

definition onAppendEntriesReply ::
  "ConsensusModule \<Rightarrow> int \<Rightarrow> int \<Rightarrow> int \<Rightarrow> LogEntry list \<Rightarrow> AppendEntriesReply \<Rightarrow>
   panic + ConsensusModule \<times> Event list" where
  "onAppendEntriesReply cm savedCurrentTerm peerId ni entries reply =
     (if Term_aer reply > currentTerm cm then Inr (becomeFollower cm (Term_aer reply), [])
      else if state cm = Leader \<and> savedCurrentTerm = Term_aer reply then
        (if Success reply then
           (let cm1 = cm\<lparr>nextIndex := (nextIndex cm)(peerId \<mapsto> ni + int (length entries))\<rparr>;
                cm2 = cm1\<lparr>matchIndex := (matchIndex cm1)(peerId \<mapsto> map_get (nextIndex cm1) peerId - 1)\<rparr>;
                savedCommitIndex = commitIndex cm2
            in case commitLoop cm2 (commitIndex cm2 + 1) of
                 Inl p \<Rightarrow> Inl p
               | Inr cm3 \<Rightarrow>
                   Inr (cm3, if commitIndex cm3 \<noteq> savedCommitIndex
                             then [NewCommitReady, TriggerAE] else []))
         else if ConflictTerm reply \<ge> 0 then
           (case lastIndexOfTermLoop (log cm) (ConflictTerm reply) (int (length (log cm)) - 1) of
              Inl p \<Rightarrow> Inl p
            | Inr lastIndexOfTerm \<Rightarrow>
                if lastIndexOfTerm \<ge> 0
                then Inr (cm\<lparr>nextIndex := (nextIndex cm)(peerId \<mapsto> lastIndexOfTerm + 1)\<rparr>, [])
                else Inr (cm\<lparr>nextIndex := (nextIndex cm)(peerId \<mapsto> ConflictIndex reply)\<rparr>, []))
         else Inr (cm\<lparr>nextIndex := (nextIndex cm)(peerId \<mapsto> ConflictIndex reply)\<rparr>, []))
      else Inr (cm, []))"

section \<open>Commit dispatcher\<close>

text \<open>The sends on \<^verbatim>\<open>commitChan\<close> of \<^verbatim>\<open>for i, entry := range entries\<close>, from index \<open>i\<close> on.\<close>

fun emitEntries :: "int \<Rightarrow> int \<Rightarrow> int \<Rightarrow> LogEntry list \<Rightarrow> CommitEntry list" where
  "emitEntries savedTerm savedLastApplied i [] = []"
| "emitEntries savedTerm savedLastApplied i (entry # es) =
     \<lparr>Command_ce = Command entry, Index_ce = savedLastApplied + i + 1,
      Term_ce = savedTerm, ChosenId_ce = ChosenId entry\<rparr>
     # emitEntries savedTerm savedLastApplied (i + 1) es"

text \<open>One round of the loop of \<^verbatim>\<open>commitChanSender\<close>, after a notification.\<close>

definition commitChanSender ::
  "Env \<Rightarrow> ConsensusModule \<Rightarrow> panic + ConsensusModule \<times> CommitEntry list" where
  "commitChanSender env cm =
     (let savedTerm = currentTerm cm;
          savedLastApplied = lastApplied cm
      in if commitIndex cm > lastApplied cm then
           (case go_slice (log cm) (logSpare env) (lastApplied cm + 1) (commitIndex cm + 1) of
              Inl p \<Rightarrow> Inl p
            | Inr entries \<Rightarrow>
                Inr (cm\<lparr>lastApplied := commitIndex cm\<rparr>,
                     emitEntries savedTerm savedLastApplied 0 entries))
         else Inr (cm, emitEntries savedTerm savedLastApplied 0 []))"

section \<open>The rules as the specification words them\<close>

text \<open>
  The majority rule of the specification for a log position \<open>i\<close>: the entry is of the
  current term, and one (the leader) plus the number of peers whose match index reaches
  \<open>i\<close>, doubled, exceeds the number of peers plus one.
\<close>

definition spec_matchCount :: "ConsensusModule \<Rightarrow> int \<Rightarrow> int" where
  "spec_matchCount cm i =
     1 + int (length (filter (\<lambda>p. map_get (matchIndex cm) p \<ge> i) (peerIds cm)))"

definition spec_commit_ok :: "ConsensusModule \<Rightarrow> int \<Rightarrow> bool" where
  "spec_commit_ok cm i =
     (Term (log cm ! nat i) = currentTerm cm \<and>
      spec_matchCount cm i * 2 > int (length (peerIds cm)) + 1)"

text \<open>The positions strictly between \<open>commit_index\<close> and the log length that pass the rule.\<close>

definition spec_commit_candidates :: "ConsensusModule \<Rightarrow> int list" where
  "spec_commit_candidates cm =
     filter (spec_commit_ok cm) [commitIndex cm + 1 .. int (length (log cm)) - 1]"

definition spec_new_commitIndex :: "ConsensusModule \<Rightarrow> int" where
  "spec_new_commitIndex cm =
     (if spec_commit_candidates cm = [] then commitIndex cm
      else Max (set (spec_commit_candidates cm)))"

text \<open>The smallest index of the log whose entry has term \<open>t\<close> (the log length if none has).\<close>

definition spec_first_index_of_term :: "LogEntry list \<Rightarrow> int \<Rightarrow> int" where
  "spec_first_index_of_term lg t = int (length (takeWhile (\<lambda>e. Term e \<noteq> t) lg))"

text \<open>What the dispatcher must emit for position \<open>i\<close>, in the words of the specification
  (the entry's own term) and as the struct \<^verbatim>\<open>CommitEntry\<close> documents it (the term at
  which the command is committed).\<close>

definition spec_commit_entry :: "ConsensusModule \<Rightarrow> int \<Rightarrow> CommitEntry" where
  "spec_commit_entry cm i =
     \<lparr>Command_ce = Command (log cm ! nat i), Index_ce = i,
      Term_ce = Term (log cm ! nat i), ChosenId_ce = ChosenId (log cm ! nat i)\<rparr>"

definition sent_commit_entry :: "ConsensusModule \<Rightarrow> int \<Rightarrow> CommitEntry" where
  "sent_commit_entry cm i =
     \<lparr>Command_ce = Command (log cm ! nat i), Index_ce = i,
      Term_ce = currentTerm cm, ChosenId_ce = ChosenId (log cm ! nat i)\<rparr>"

text \<open>The last element of a list, or a default for the empty list.\<close>

definition last_or :: "int \<Rightarrow> int list \<Rightarrow> int" where
  "last_or d xs = (if xs = [] then d else last xs)"

text \<open>
  No incoming entry conflicts with the log: wherever an entry of the request, placed from
  position \<open>prev + 1\<close> on, meets an entry the log already holds, the two have the same term.
\<close>

definition entries_agree :: "LogEntry list \<Rightarrow> int \<Rightarrow> LogEntry list \<Rightarrow> bool" where
  "entries_agree lg prev es =
     list_all (\<lambda>(a, b). Term a = Term b) (zip (drop (nat (prev + 1)) lg) es)"

text \<open>
  The length of the log after an accepted request: where no incoming entry conflicts, the
  log keeps its entries and grows to hold the request's; where one conflicts, the log is
  cut there and ends with the request's last entry.
\<close>

definition reconciled_length :: "ConsensusModule \<Rightarrow> AppendEntriesArgs \<Rightarrow> int" where
  "reconciled_length cm args =
     (if entries_agree (log cm) (PrevLogIndex args) (Entries args)
      then max (int (length (log cm))) (PrevLogIndex args + 1 + int (length (Entries args)))
      else PrevLogIndex args + 1 + int (length (Entries args)))"

section \<open>Example states\<close>

text \<open>
  Concrete inputs at which the theorems below are instantiated. \<open>toy_hash\<close> stands in for
  the hash function and \<open>braces\<close> for the rendering of a command in those examples only.
\<close>

definition toy_hash :: "string \<Rightarrow> string" where
  "toy_hash bs = take 64 (bs @ replicate 64 (CHR 0x00))"

definition braces :: "Service \<Rightarrow> string" where
  "braces c = ''{'' @ ServiceID c @ '' '' @ Type c @ ''}''"

definition env0 :: Env where
  "env0 = \<lparr>sha512 = toy_hash, fmtService = braces, fmtObject = (\<lambda>kvs. ''map[]''),
           termDataOrder = [''Id'', ''Term'', ''Command'', ''Leader'', ''Chosen'', ''VotedFor''],
           loadLevelOrder = [1], randDraw = 0, logSpare = []\<rparr>"

definition svc :: Service where
  "svc = \<lparr>ServiceID = ''web'', Type = ''run''\<rparr>"

definition entry :: "int \<Rightarrow> int \<Rightarrow> LogEntry" where
  "entry t i = \<lparr>Command = svc, Term = t, LeaderId = 1, Index = i, ChosenId = 1\<rparr>"

definition cm0 :: ConsensusModule where
  "cm0 = \<lparr>cm_id = 1, peerIds = [2, 3], loadLevel = 5, loadLevelMap = [1 \<mapsto> 5],
          currentTerm = 2, votedFor = - 1, log = [], commitIndex = - 1,
          lastApplied = - 1, state = Follower, nextIndex = Map.empty,
          matchIndex = Map.empty\<rparr>"

definition rvargs0 :: RequestVoteArgs where
  "rvargs0 = \<lparr>Term_rv = 2, CandidateId = 2, LastLogIndex = - 1, LastLogTerm = - 1,
              LoadLevel_rv = 4\<rparr>"

definition rvreply0 :: RequestVoteReply where
  "rvreply0 = \<lparr>Term_rvr = 0, VoteGranted = False, LoadLevel_rvr = 0\<rparr>"

definition aereply0 :: AppendEntriesReply where
  "aereply0 = \<lparr>Term_aer = 0, Success = False, ConflictIndex = 0, ConflictTerm = 0\<rparr>"

definition cm_leader :: ConsensusModule where
  "cm_leader = cm0\<lparr>state := Leader, log := [entry 1 0, entry 2 1, entry 2 2],
                  matchIndex := [2 \<mapsto> - 1, 3 \<mapsto> - 1], nextIndex := [2 \<mapsto> 0, 3 \<mapsto> 0]\<rparr>"

definition aereply_ok :: AppendEntriesReply where
  "aereply_ok = \<lparr>Term_aer = 2, Success = True, ConflictIndex = 0, ConflictTerm = 0\<rparr>"

definition cm_follower :: ConsensusModule where
  "cm_follower = cm0\<lparr>log := [entry 1 0, entry 1 1]\<rparr>"

definition cm_mixed :: ConsensusModule where
  "cm_mixed = cm0\<lparr>log := [entry 1 0, entry 2 1, entry 1 2]\<rparr>"

definition aeargs_probe :: "int \<Rightarrow> AppendEntriesArgs" where
  "aeargs_probe prev = \<lparr>Term_ae = 2, LeaderId_ae = 2, PrevLogIndex = prev, PrevLogTerm = 2,
                        Entries = [], LeaderCommit = - 1, ChosenId_ae = - 1\<rparr>"

definition cm_behind :: ConsensusModule where
  "cm_behind = cm0\<lparr>log := [entry 1 0, entry 1 1, entry 2 2], commitIndex := 1\<rparr>"

definition cm_applied :: ConsensusModule where
  "cm_applied = cm0\<lparr>log := [entry 1 0, entry 1 1, entry 1 2], commitIndex := 2, lastApplied := 2\<rparr>"

definition aeargs_overwrite :: AppendEntriesArgs where
  "aeargs_overwrite = \<lparr>Term_ae = 2, LeaderId_ae = 2, PrevLogIndex = - 1, PrevLogTerm = - 1,
                        Entries = [entry 2 0], LeaderCommit = 3, ChosenId_ae = 1\<rparr>"

definition aeargs_extend :: AppendEntriesArgs where
  "aeargs_extend = \<lparr>Term_ae = 2, LeaderId_ae = 2, PrevLogIndex = 2, PrevLogTerm = 1,
                        Entries = [entry 2 3], LeaderCommit = 3, ChosenId_ae = 1\<rparr>"

definition svcA :: Service where
  "svcA = \<lparr>ServiceID = ''alpha'', Type = ''run''\<rparr>"

definition svcB :: Service where
  "svcB = \<lparr>ServiceID = ''beta'', Type = ''run''\<rparr>"

definition cm_one :: ConsensusModule where
  "cm_one = cm0\<lparr>state := Leader,
       log := [\<lparr>Command = svcA, Term = 2, LeaderId = 1, Index = 0, ChosenId = 1\<rparr>]\<rparr>"

definition cm_two :: ConsensusModule where
  "cm_two = cm0\<lparr>state := Leader,
       log := [\<lparr>Command = svcA, Term = 2, LeaderId = 1, Index = 0, ChosenId = 1\<rparr>,
               \<lparr>Command = svcB, Term = 2, LeaderId = 1, Index = 1, ChosenId = 1\<rparr>]\<rparr>"

text \<open>
  A leader of term 2 that has accepted two commands, and the store after the two writes:
  the records in write order, each read back with its command as a decoded object, and
  the scalars \<^verbatim>\<open>Term\<close> and \<^verbatim>\<open>VotedFor\<close> of the last write.
\<close>

definition stored_record :: "int \<Rightarrow> Service \<Rightarrow> TermData" where
  "stored_record i c =
     [''Id'' \<mapsto> VString (Sprintf_x i),
      ''Term'' \<mapsto> VString ''2'',
      ''Command'' \<mapsto> VObject [(''ServiceID'', VString (ServiceID c)), (''Type'', VString (Type c))],
      ''Leader'' \<mapsto> VString ''1'',
      ''Chosen'' \<mapsto> VString ''1'',
      ''VotedFor'' \<mapsto> VString ''-1'']"

definition store_two :: Storage where
  "store_two = \<lparr>scalars = [(''Term'', VString ''2''), (''VotedFor'', VString ''-1'')],
                records = [stored_record 0 svcA, stored_record 1 svcB]\<rparr>"

definition scalar_keys :: "string list" where
  "scalar_keys = [''Id'', ''Term'', ''Leader'', ''Chosen'', ''VotedFor'']"

text \<open>
  A voter at term 5 whose log ends with an entry of term 5 at index 1; a candidate with an
  empty log, a candidate of a later term whose log is as long, and a Dead node.
\<close>

definition cm_voter :: ConsensusModule where
  "cm_voter = cm0\<lparr>currentTerm := 5, log := [entry 3 0, entry 5 1]\<rparr>"

definition rvargs_empty_log :: RequestVoteArgs where
  "rvargs_empty_log = \<lparr>Term_rv = 5, CandidateId = 2, LastLogIndex = - 1, LastLogTerm = - 1,
                        LoadLevel_rv = 4\<rparr>"

definition rvargs_same_log :: RequestVoteArgs where
  "rvargs_same_log = \<lparr>Term_rv = 6, CandidateId = 3, LastLogIndex = 1, LastLogTerm = 5,
                       LoadLevel_rv = 4\<rparr>"

definition cm_dead :: ConsensusModule where
  "cm_dead = cm0\<lparr>state := Dead\<rparr>"

text \<open>A candidate of term 3 in a cluster of two (one peer), and a reply that denies.\<close>

definition cm_pair :: ConsensusModule where
  "cm_pair = cm0\<lparr>peerIds := [2], state := Candidate, currentTerm := 3, votedFor := 1\<rparr>"

definition rvreply_deny :: RequestVoteReply where
  "rvreply_deny = \<lparr>Term_rvr = 3, VoteGranted = False, LoadLevel_rvr = 7\<rparr>"

text \<open>
  A node whose commit index points one past its two entries, over a backing array that
  still holds a third entry there.
\<close>

definition cm_short :: ConsensusModule where
  "cm_short = cm0\<lparr>log := [entry 1 0, entry 1 1], commitIndex := 2\<rparr>"

definition env_spare :: Env where
  "env_spare = env0\<lparr>logSpare := [entry 2 2]\<rparr>"

section \<open>Persistence needs a log entry\<close>

text \<open>
  Claim C10. \<^verbatim>\<open>persistToStorage\<close> clamps the index of the last entry to \<open>0\<close> and then
  reads \<^verbatim>\<open>cm.log[last]\<close>. With an empty log that read is out of range and the call
  panics; with a non-empty log the read at \<open>len(log) - 1\<close> is in bounds and the call
  writes one record, tagged with that index.
\<close>

theorem persistToStorage_needs_entry:
  "(log cm = [] \<longrightarrow> persistToStorage env cm = Inl IndexOutOfRange) \<and>
   (log cm \<noteq> [] \<longrightarrow>
      go_index (log cm) (int (length (log cm)) - 1) = Inr (last (log cm)) \<and>
      (\<exists>td evs. persistToStorage env cm = Inr (td, StorageSet td # evs) \<and>
         td ''Id'' = Some (VString (Sprintf_x (int (length (log cm)) - 1)))))"
proof (cases "log cm")
  case Nil
  then show ?thesis by (simp add: persistToStorage_def go_index_def)
next
  case (Cons e es)
  have in_range: "go_index (log cm) (int (length (log cm)) - 1) = Inr (last (log cm))"
    using Cons by (simp add: go_index_def last_conv_nth nat_diff_distrib' del: last.simps)
  show ?thesis
    using Cons in_range
    by (simp add: persistToStorage_def Let_def termData_fields_def del: last.simps)
qed

theorem persistToStorage_needs_entry_witness:
  "log cm0 = [] \<and> persistToStorage env0 cm0 = Inl IndexOutOfRange \<and>
   log (cm0\<lparr>log := [entry 2 0]\<rparr>) \<noteq> [] \<and>
   go_index (log (cm0\<lparr>log := [entry 2 0]\<rparr>)) 0 = Inr (entry 2 0) \<and>
   (\<exists>td evs. persistToStorage env0 (cm0\<lparr>log := [entry 2 0]\<rparr>) = Inr (td, StorageSet td # evs) \<and>
      td ''Id'' = Some (VString ''0''))"
  using persistToStorage_needs_entry [of cm0 env0]
    persistToStorage_needs_entry [of "cm0\<lparr>log := [entry 2 0]\<rparr>" env0]
  by (simp add: cm0_def Sprintf_x_def hex_nat.simps digit_char_def)

section \<open>Leader: the commit index after a successful reply\<close>

lemma matchCountLoop_eq:
  "matchCountLoop mi i ps c = c + int (length (filter (\<lambda>p. map_get mi p \<ge> i) ps))"
  by (induction ps arbitrary: c) auto

lemma spec_commit_ok_commitIndex [simp]:
  "spec_commit_ok (cm\<lparr>commitIndex := k\<rparr>) = spec_commit_ok cm"
  by (rule ext) (simp add: spec_commit_ok_def spec_matchCount_def)

lemma commitLoop_eq:
  "0 \<le> i \<Longrightarrow>
   commitLoop cm i =
     Inr (cm\<lparr>commitIndex := last_or (commitIndex cm)
                 (filter (spec_commit_ok cm) [i .. int (length (log cm)) - 1])\<rparr>)"
proof (induction cm i rule: commitLoop.induct)
  case (1 cm i)
  show ?case
  proof (cases "i < int (length (log cm))")
    case False
    then show ?thesis
      by (subst commitLoop.simps) (simp add: last_or_def)
  next
    case True
    define e where "e = log cm ! nat i"
    have ix: "go_index (log cm) i = Inr e"
      using True "1.prems" by (simp add: go_index_def e_def)
    define cm' where "cm' = (if Term e = currentTerm cm then
                  (if matchCountLoop (matchIndex cm) i (peerIds cm) 1 * 2 >
                      int (length (peerIds cm)) + 1
                   then cm\<lparr>commitIndex := i\<rparr> else cm)
                else cm)"
    have ok: "spec_commit_ok cm i \<longleftrightarrow> (Term e = currentTerm cm \<and>
         matchCountLoop (matchIndex cm) i (peerIds cm) 1 * 2 > int (length (peerIds cm)) + 1)"
      by (simp add: spec_commit_ok_def spec_matchCount_def matchCountLoop_eq e_def)
    have cm'_eq: "cm' = (if spec_commit_ok cm i then cm\<lparr>commitIndex := i\<rparr> else cm)"
      unfolding cm'_def using ok by auto
    have IH: "commitLoop cm' (i + 1) =
        Inr (cm'\<lparr>commitIndex := last_or (commitIndex cm')
                 (filter (spec_commit_ok cm') [i + 1 .. int (length (log cm')) - 1])\<rparr>)"
      using "1.IH" [OF True ix, folded cm'_def] "1.prems" by simp
    have step: "commitLoop cm i = commitLoop cm' (i + 1)"
      by (subst commitLoop.simps) (simp add: True ix cm'_def)
    have up: "[i .. int (length (log cm)) - 1] = i # [i + 1 .. int (length (log cm)) - 1]"
      using True by (simp add: upto_rec1)
    show ?thesis
      unfolding step IH up
      by (simp add: cm'_eq last_or_def)
  qed
qed

lemma sorted_filter_upto: "sorted (filter P [i .. j])"
  by (simp add: sorted_wrt_filter)

lemma last_or_Max:
  "sorted xs \<Longrightarrow> last_or d xs = (if xs = [] then d else Max (set xs))"
  by (induction xs) (auto simp: last_or_def max_def Max_insert2 intro: antisym)


lemma commitLoop_spec:
  assumes "- 1 \<le> commitIndex cm"
  shows "commitLoop cm (commitIndex cm + 1) = Inr (cm\<lparr>commitIndex := spec_new_commitIndex cm\<rparr>)"
proof -
  have "0 \<le> commitIndex cm + 1" using assms by simp
  from commitLoop_eq [OF this, of cm] show ?thesis
    by (simp add: spec_new_commitIndex_def spec_commit_candidates_def
        last_or_Max [OF sorted_filter_upto])
qed

lemma spec_new_commitIndex_cases:
  "(spec_new_commitIndex cm = commitIndex cm \<and> spec_commit_candidates cm = []) \<or>
   (spec_new_commitIndex cm \<in> set (spec_commit_candidates cm))"
  by (auto simp: spec_new_commitIndex_def intro: Max_in)

lemma spec_commit_candidates_set:
  "set (spec_commit_candidates cm) =
     {i. commitIndex cm < i \<and> i < int (length (log cm)) \<and> spec_commit_ok cm i}"
  by (auto simp: spec_commit_candidates_def)

lemma spec_new_commitIndex_upper:
  "i \<in> set (spec_commit_candidates cm) \<Longrightarrow> i \<le> spec_new_commitIndex cm"
  by (auto simp: spec_new_commitIndex_def)

text \<open>
  Claim C1. A Leader handles a successful reply that carries its saved term (and no
  newer term than its own) with \<open>commit_index \<ge> -1\<close>: it records \<open>nextIndex\<close> and
  \<open>matchIndex\<close> of the peer and then sets \<open>commit_index\<close> to the largest position
  \<open>i\<close> with \<open>commit_index < i < len(log)\<close> whose entry has the current term and for
  which one plus the number of peers with \<open>matchIndex \<ge> i\<close>, doubled, exceeds the
  number of peers plus one; if there is no such position \<open>commit_index\<close> stays. So the
  index only moves to an entry of the current term, and the dispatcher and the
  replication trigger are signalled exactly when it moved.
\<close>

theorem leader_commit_rule:
  assumes leader: "state cm = Leader"
    and same: "Term_aer reply = savedCurrentTerm"
    and notnewer: "Term_aer reply \<le> currentTerm cm"
    and success: "Success reply"
    and ci: "- 1 \<le> commitIndex cm"
  shows "let cm2 = cm\<lparr>nextIndex := (nextIndex cm)(peerId \<mapsto> ni + int (length entries)),
                     matchIndex := (matchIndex cm)(peerId \<mapsto> ni + int (length entries) - 1)\<rparr>;
             new = spec_new_commitIndex cm2
         in onAppendEntriesReply cm savedCurrentTerm peerId ni entries reply =
              Inr (cm2\<lparr>commitIndex := new\<rparr>,
                   if new \<noteq> commitIndex cm then [NewCommitReady, TriggerAE] else []) \<and>
            (new \<noteq> commitIndex cm \<longrightarrow>
               commitIndex cm < new \<and> new < int (length (log cm)) \<and>
               Term (log cm ! nat new) = currentTerm cm \<and>
               spec_matchCount cm2 new * 2 > int (length (peerIds cm)) + 1) \<and>
            (\<forall>i. commitIndex cm < i \<and> i < int (length (log cm)) \<and>
                 Term (log cm ! nat i) = currentTerm cm \<and>
                 spec_matchCount cm2 i * 2 > int (length (peerIds cm)) + 1 \<longrightarrow> i \<le> new)"
proof -
  define cm2 where "cm2 = cm\<lparr>nextIndex := (nextIndex cm)(peerId \<mapsto> ni + int (length entries)),
                     matchIndex := (matchIndex cm)(peerId \<mapsto> ni + int (length entries) - 1)\<rparr>"
  have ci2: "- 1 \<le> commitIndex cm2" and [simp]: "commitIndex cm2 = commitIndex cm"
    "log cm2 = log cm" "peerIds cm2 = peerIds cm" "currentTerm cm2 = currentTerm cm"
    using ci by (simp_all add: cm2_def)
  have run: "onAppendEntriesReply cm savedCurrentTerm peerId ni entries reply =
      Inr (cm2\<lparr>commitIndex := spec_new_commitIndex cm2\<rparr>,
           if spec_new_commitIndex cm2 \<noteq> commitIndex cm then [NewCommitReady, TriggerAE] else [])"
    using leader same notnewer success commitLoop_spec [OF ci2]
    by (simp add: onAppendEntriesReply_def Let_def map_get_def cm2_def)
  have changed: "spec_new_commitIndex cm2 \<noteq> commitIndex cm \<Longrightarrow>
      spec_new_commitIndex cm2 \<in> set (spec_commit_candidates cm2)"
    using spec_new_commitIndex_cases [of cm2] by auto
  have biggest: "\<And>i. i \<in> set (spec_commit_candidates cm2) \<Longrightarrow> i \<le> spec_new_commitIndex cm2"
    by (rule spec_new_commitIndex_upper)
  show ?thesis
    unfolding Let_def cm2_def [symmetric]
    using run changed biggest
    by (auto simp: spec_commit_candidates_set spec_commit_ok_def)
qed


lemma spec_new_commitIndex_example:
  "spec_new_commitIndex
     (cm_leader\<lparr>nextIndex := (nextIndex cm_leader)(2 \<mapsto> 0 + int (length (log cm_leader))),
                matchIndex := (matchIndex cm_leader)(2 \<mapsto> 0 + int (length (log cm_leader)) - 1)\<rparr>) = 2"
  by (simp add: spec_new_commitIndex_def spec_commit_candidates_def cm_leader_def cm0_def
      spec_commit_ok_def spec_matchCount_def map_get_def entry_def upto.simps)

lemma spec_new_commitIndex_old_term:
  "spec_new_commitIndex
     (cm_leader\<lparr>nextIndex := (nextIndex cm_leader)(2 \<mapsto> 0 + int (length [entry 1 0])),
                matchIndex := (matchIndex cm_leader)(2 \<mapsto> 0 + int (length [entry 1 0]) - 1)\<rparr>) = - 1"
  by (simp add: spec_new_commitIndex_def spec_commit_candidates_def cm_leader_def cm0_def
      spec_commit_ok_def spec_matchCount_def map_get_def entry_def upto.simps)

text \<open>
  The leader of term 2 holds entries of terms 1, 2, 2. When peer 2 reports all three, the
  commit index moves to 2; when it reports only the first, an entry of term 1, the index
  stays at \<open>-1\<close> although two of three nodes hold that entry.
\<close>

theorem leader_commit_rule_witness:
  "state cm_leader = Leader \<and> Term_aer aereply_ok = 2 \<and>
   Term_aer aereply_ok \<le> currentTerm cm_leader \<and>
   Success aereply_ok \<and> - 1 \<le> commitIndex cm_leader \<and>
   onAppendEntriesReply cm_leader 2 2 0 (log cm_leader) aereply_ok =
     Inr (cm_leader\<lparr>nextIndex := [2 \<mapsto> 3, 3 \<mapsto> 0], matchIndex := [2 \<mapsto> 2, 3 \<mapsto> - 1],
                    commitIndex := 2\<rparr>, [NewCommitReady, TriggerAE]) \<and>
   onAppendEntriesReply cm_leader 2 2 0 [entry 1 0] aereply_ok =
     Inr (cm_leader\<lparr>nextIndex := [2 \<mapsto> 1, 3 \<mapsto> 0], matchIndex := [2 \<mapsto> 0, 3 \<mapsto> - 1]\<rparr>, [])"
  using leader_commit_rule [of cm_leader aereply_ok 2 2 0 "log cm_leader"]
    leader_commit_rule [of cm_leader aereply_ok 2 2 0 "[entry 1 0]"]
    spec_new_commitIndex_example spec_new_commitIndex_old_term
  by (simp add: cm_leader_def cm0_def aereply_ok_def Let_def fun_upd_twist)

section \<open>AppendEntries: conflict hints\<close>

lemma conflictScan_run:
  "- 1 \<le> i \<Longrightarrow> i < int (length lg) \<Longrightarrow>
   \<exists>r. conflictScan lg ct i = Inr r \<and> - 1 \<le> r \<and> r \<le> i \<and>
       (\<forall>j. r < j \<and> j \<le> i \<longrightarrow> Term (lg ! nat j) = ct) \<and>
       (0 \<le> r \<longrightarrow> Term (lg ! nat r) \<noteq> ct)"
proof (induction lg ct i rule: conflictScan.induct)
  case (1 lg ct i)
  show ?case
  proof (cases "0 \<le> i")
    case False
    then show ?thesis
      using "1.prems" by (subst conflictScan.simps) auto
  next
    case True
    have ix: "go_index lg i = Inr (lg ! nat i)"
      using True "1.prems" by (simp add: go_index_def)
    show ?thesis
    proof (cases "Term (lg ! nat i) = ct")
      case False
      then show ?thesis
        using True ix by (subst conflictScan.simps) auto
    next
      case same: True
      from "1.IH" [OF True ix] same "1.prems" True
      obtain r where r: "conflictScan lg ct (i - 1) = Inr r" "- 1 \<le> r" "r \<le> i - 1"
        "\<forall>j. r < j \<and> j \<le> i - 1 \<longrightarrow> Term (lg ! nat j) = ct"
        "0 \<le> r \<longrightarrow> Term (lg ! nat r) \<noteq> ct"
        by auto
      have "conflictScan lg ct i = Inr r"
        using True ix same r(1) by (subst conflictScan.simps) simp
      moreover have "\<forall>j. r < j \<and> j \<le> i \<longrightarrow> Term (lg ! nat j) = ct"
      proof (intro allI impI)
        fix j assume j: "r < j \<and> j \<le> i"
        show "Term (lg ! nat j) = ct"
        proof (cases "j = i")
          case True then show ?thesis using same by simp
        next
          case False then show ?thesis using j r(4) by auto
        qed
      qed
      ultimately show ?thesis using r by auto
    qed
  qed
qed

lemma first_index_of_term_sorted:
  assumes srt: "sorted (map Term lg)"
    and c: "0 \<le> c" "c < int (length lg)" "Term (lg ! nat c) = t"
    and before: "0 < c \<longrightarrow> Term (lg ! nat (c - 1)) \<noteq> t"
  shows "spec_first_index_of_term lg t = c"
proof -
  have below: "Term (lg ! j) \<noteq> t" if "j < nat c" for j
  proof -
    have pos: "0 < c" using that by auto
    have "j \<le> nat (c - 1)" using that by auto
    moreover have "nat (c - 1) < length lg" using c by auto
    ultimately have "map Term lg ! j \<le> map Term lg ! nat (c - 1)"
      using srt by (simp add: sorted_iff_nth_mono del: nth_map)
    then have le1: "Term (lg ! j) \<le> Term (lg ! nat (c - 1))"
      using \<open>j \<le> nat (c - 1)\<close> \<open>nat (c - 1) < length lg\<close> by simp
    have "map Term lg ! nat (c - 1) \<le> map Term lg ! nat c"
      using srt c pos by (simp add: sorted_iff_nth_mono del: nth_map)
    then have "Term (lg ! nat (c - 1)) \<le> t"
      using c pos by simp
    with before pos have "Term (lg ! nat (c - 1)) < t" by auto
    with le1 show ?thesis by auto
  qed
  have "takeWhile (\<lambda>e. Term e \<noteq> t) lg = take (nat c) lg"
    by (rule takeWhile_eq_take_P_nth) (use below c in auto)
  then show ?thesis
    using c by (simp add: spec_first_index_of_term_def)
qed

lemma prevEntryMatches_False:
  "prevEntryMatches cm args = Inr False \<longleftrightarrow>
     PrevLogIndex args \<noteq> - 1 \<and>
     (PrevLogIndex args \<ge> int (length (log cm)) \<or>
      (0 \<le> PrevLogIndex args \<and> PrevLogTerm args \<noteq> Term (log cm ! nat (PrevLogIndex args))))"
  by (auto simp: prevEntryMatches_def go_index_def)

lemma prevEntryMatches_becomeFollower:
  "prevEntryMatches (state_update f cm) args = prevEntryMatches cm args"
  "prevEntryMatches (currentTerm_update g cm) args = prevEntryMatches cm args"
  "prevEntryMatches (votedFor_update h cm) args = prevEntryMatches cm args"
  by (simp_all add: prevEntryMatches_def)

text \<open>
  Claim C2, as amended. A node that is not Dead receives a request whose term is not
  below its own (so that, after catching up, the request's term is the current term),
  and the previous-entry check yields no match. Then the handler replies without
  success and leaves the log alone. If \<open>prev_log_index \<ge> len(log)\<close> the hints are
  \<open>conflict_index = len(log)\<close> and \<open>conflict_term = -1\<close>. Otherwise \<open>conflict_term\<close>
  is the term of the local entry at \<open>prev_log_index\<close>, and \<open>conflict_index\<close> is where
  the run of consecutive entries of that term that ends at \<open>prev_log_index\<close> begins:
  every entry from \<open>conflict_index\<close> to \<open>prev_log_index\<close> has that term and the entry
  before \<open>conflict_index\<close>, if any, has another. When the terms along the log never
  decrease, this is the smallest index of the log whose entry has \<open>conflict_term\<close>.
\<close>

theorem AppendEntries_conflict_hints:
  assumes live: "state cm \<noteq> Dead"
    and notolder: "currentTerm cm \<le> Term_ae args"
    and nomatch: "prevEntryMatches cm args = Inr False"
  shows "\<exists>cm' reply'.
     AppendEntries env cm args reply = Inr (cm', reply', []) \<and> \<not> Success reply' \<and>
     log cm' = log cm \<and>
     (if PrevLogIndex args \<ge> int (length (log cm))
      then ConflictIndex reply' = int (length (log cm)) \<and> ConflictTerm reply' = - 1
      else ConflictTerm reply' = Term (log cm ! nat (PrevLogIndex args)) \<and>
           0 \<le> ConflictIndex reply' \<and> ConflictIndex reply' \<le> PrevLogIndex args \<and>
           (\<forall>j. ConflictIndex reply' \<le> j \<and> j \<le> PrevLogIndex args \<longrightarrow>
                Term (log cm ! nat j) = ConflictTerm reply') \<and>
           (0 < ConflictIndex reply' \<longrightarrow>
              Term (log cm ! nat (ConflictIndex reply' - 1)) \<noteq> ConflictTerm reply') \<and>
           (sorted (map Term (log cm)) \<longrightarrow>
              ConflictIndex reply' = spec_first_index_of_term (log cm) (ConflictTerm reply')))"
proof -
  have "\<exists>cm2. log cm2 = log cm \<and>
      AppendEntries env cm args reply =
      (case AppendEntries_conflict cm2 args (reply\<lparr>Success := False\<rparr>) of
         Inl p \<Rightarrow> Inl p
       | Inr reply2 \<Rightarrow> Inr (cm2, reply2\<lparr>Term_aer := currentTerm cm2\<rparr>, []))"
  proof (cases "Term_ae args > currentTerm cm")
    case True
    then show ?thesis
      using live nomatch
      by (intro exI [of _ "cm\<lparr>state := Follower, currentTerm := Term_ae args, votedFor := - 1\<rparr>"])
        (simp add: AppendEntries_def Let_def prevEntryMatches_becomeFollower becomeFollower_def)
  next
    case False
    with notolder have eq: "Term_ae args = currentTerm cm" by simp
    show ?thesis
    proof (cases "state cm = Follower")
      case True
      then show ?thesis
        using live nomatch eq
        by (intro exI [of _ cm]) (simp add: AppendEntries_def Let_def)
    next
      case False
      then show ?thesis
        using live nomatch eq
        by (intro exI [of _ "cm\<lparr>state := Follower, votedFor := - 1\<rparr>"])
          (simp add: AppendEntries_def Let_def prevEntryMatches_becomeFollower becomeFollower_def)
    qed
  qed
  then obtain cm2 where lg: "log cm2 = log cm" and run: "AppendEntries env cm args reply =
      (case AppendEntries_conflict cm2 args (reply\<lparr>Success := False\<rparr>) of
         Inl p \<Rightarrow> Inl p
       | Inr reply2 \<Rightarrow> Inr (cm2, reply2\<lparr>Term_aer := currentTerm cm2\<rparr>, []))"
    by blast
  show ?thesis
  proof (cases "PrevLogIndex args \<ge> int (length (log cm))")
    case True
    then show ?thesis
      unfolding run by (simp add: AppendEntries_conflict_def lg)
  next
    case False
    with nomatch have p: "0 \<le> PrevLogIndex args" "PrevLogIndex args < int (length (log cm))"
      by (auto simp: prevEntryMatches_False)
    define ct where "ct = Term (log cm ! nat (PrevLogIndex args))"
    have ix: "go_index (log cm) (PrevLogIndex args) = Inr (log cm ! nat (PrevLogIndex args))"
      using p by (simp add: go_index_def)
    from conflictScan_run [of "PrevLogIndex args - 1" "log cm" ct] p
    obtain r where r: "conflictScan (log cm) ct (PrevLogIndex args - 1) = Inr r" "- 1 \<le> r"
        "r \<le> PrevLogIndex args - 1"
        "\<forall>j. r < j \<and> j \<le> PrevLogIndex args - 1 \<longrightarrow> Term (log cm ! nat j) = ct"
        "0 \<le> r \<longrightarrow> Term (log cm ! nat r) \<noteq> ct"
      by auto
    have res: "AppendEntries env cm args reply =
        Inr (cm2, reply\<lparr>Success := False, ConflictTerm := ct, ConflictIndex := r + 1,
                     Term_aer := currentTerm cm2\<rparr>, [])"
      unfolding run using False ix r(1) by (simp add: AppendEntries_conflict_def lg ct_def)
    have run_all: "\<forall>j. r + 1 \<le> j \<and> j \<le> PrevLogIndex args \<longrightarrow> Term (log cm ! nat j) = ct"
    proof (intro allI impI)
      fix j assume j: "r + 1 \<le> j \<and> j \<le> PrevLogIndex args"
      show "Term (log cm ! nat j) = ct"
      proof (cases "j = PrevLogIndex args")
        case True then show ?thesis by (simp add: ct_def)
      next
        case False then show ?thesis using j r(4) by auto
      qed
    qed
    have before: "0 < r + 1 \<longrightarrow> Term (log cm ! nat (r + 1 - 1)) \<noteq> ct"
      using r(5) by auto
    have here: "Term (log cm ! nat (r + 1)) = ct"
      using run_all r(3) by auto
    have first: "sorted (map Term (log cm)) \<longrightarrow> r + 1 = spec_first_index_of_term (log cm) ct"
      using first_index_of_term_sorted [of "log cm" "r + 1" ct] r(2,3) p here before by auto
    show ?thesis
      unfolding res using False r(2,3) run_all before first lg
      by (simp add: ct_def [symmetric])
  qed
qed



theorem AppendEntries_conflict_hints_witness:
  "state cm_follower \<noteq> Dead \<and> currentTerm cm_follower \<le> Term_ae (aeargs_probe 1) \<and>
   prevEntryMatches cm_follower (aeargs_probe 1) = Inr False \<and>
   sorted (map Term (log cm_follower)) \<and>
   AppendEntries env0 cm_follower (aeargs_probe 1) aereply0 =
     Inr (cm_follower, \<lparr>Term_aer = 2, Success = False, ConflictIndex = 0, ConflictTerm = 1\<rparr>, []) \<and>
   spec_first_index_of_term (log cm_follower) 1 = 0"
  using AppendEntries_conflict_hints [of cm_follower "aeargs_probe 1" env0 aereply0]
  by (simp add: cm_follower_def cm0_def aeargs_probe_def aereply0_def entry_def
      AppendEntries_def AppendEntries_conflict_def prevEntryMatches_def go_index_def
      conflictScan.simps spec_first_index_of_term_def Let_def)

text \<open>
  As the claim words it, \<open>conflict_index\<close> would be the smallest index of any entry of
  term \<open>conflict_term\<close>. On a log with terms 1, 2, 1 and \<open>prev_log_index = 2\<close> the
  backward scan stops at the entry of term 2: the hint is index 2, while index 0 also
  holds an entry of term 1.
\<close>

theorem conflict_index_not_smallest:
  "state cm_mixed \<noteq> Dead \<and> Term_ae (aeargs_probe 2) = currentTerm cm_mixed \<and>
   prevEntryMatches cm_mixed (aeargs_probe 2) = Inr False \<and>
   AppendEntries env0 cm_mixed (aeargs_probe 2) aereply0 =
     Inr (cm_mixed, \<lparr>Term_aer = 2, Success = False, ConflictIndex = 2, ConflictTerm = 1\<rparr>, []) \<and>
   Term (log cm_mixed ! 0) = 1 \<and>
   spec_first_index_of_term (log cm_mixed) 1 = 0"
  by (simp add: cm_mixed_def cm0_def aeargs_probe_def aereply0_def entry_def
      AppendEntries_def AppendEntries_conflict_def prevEntryMatches_def go_index_def
      conflictScan.simps spec_first_index_of_term_def Let_def)

section \<open>RequestVote\<close>

lemma go_div_nonzero: "b \<noteq> 0 \<Longrightarrow> \<exists>d. go_div a b = Inr d"
  by (simp add: go_div_def)

text \<open>
  Claim C3, as amended. On a node that is not Dead, and for a request whose load level
  is not zero, the handler returns. Let \<open>term'\<close> be the node's term after it has caught
  up with a higher term of the request, and \<open>voted'\<close> its vote then (\<open>-1\<close> if it
  caught up). The vote is granted exactly when the request's term equals \<open>term'\<close>,
  \<open>voted'\<close> is \<open>-1\<close> or the candidate, and the candidate's log is at least as up to
  date as the node's: its last term is greater than the term of the node's last log
  entry (\<open>-1\<close> for an empty log), or equal to it with a last index not below
  \<open>len(log) - 1\<close>. On a grant \<open>votedFor\<close> becomes the candidate and the reply carries
  the node's own load level; otherwise the vote stays \<open>voted'\<close> and the reply's load
  level is untouched. The reply always carries \<open>term'\<close>, and the log is not changed.
\<close>

theorem RequestVote_grant_rule:
  assumes live: "state cm \<noteq> Dead" and load: "LoadLevel_rv args \<noteq> 0"
  shows "\<exists>cm' reply' evs.
     RequestVote cm args reply = Inr (cm', reply', evs) \<and>
     (let term' = (if Term_rv args > currentTerm cm then Term_rv args else currentTerm cm);
          voted' = (if Term_rv args > currentTerm cm then - 1 else votedFor cm);
          ourLastIndex = int (length (log cm)) - 1;
          ourLastTerm = (if log cm = [] then - 1 else Term (last (log cm)))
      in (VoteGranted reply' \<longleftrightarrow>
            Term_rv args = term' \<and>
            (voted' = - 1 \<or> voted' = CandidateId args) \<and>
            (LastLogTerm args > ourLastTerm \<or>
             (LastLogTerm args = ourLastTerm \<and> LastLogIndex args \<ge> ourLastIndex))) \<and>
         votedFor cm' = (if VoteGranted reply' then CandidateId args else voted') \<and>
         LoadLevel_rvr reply' =
           (if VoteGranted reply' then loadLevel cm else LoadLevel_rvr reply) \<and>
         Term_rvr reply' = term' \<and> currentTerm cm' = term' \<and>
         state cm' = (if Term_rv args > currentTerm cm then Follower else state cm) \<and>
         log cm' = log cm \<and> loadLevel cm' = loadLevel cm)"
proof -
  obtain d1 d2 where d: "go_div 100 (LoadLevel_rv args) = Inr d1"
      "go_div 1000 (LoadLevel_rv args) = Inr d2"
    using go_div_nonzero [OF load] by blast
  have lastTerm: "log cm \<noteq> [] \<Longrightarrow> log cm ! (length (log cm) - 1) = last (log cm)"
    by (simp add: last_conv_nth)
  show ?thesis
    using live d lastTerm
    by (cases "log cm = []")
      (auto simp: RequestVote_def Let_def runVoteDelay_def becomeFollower_def
        lastLogIndexAndTerm_def)
qed

text \<open>
  The voter's log ends with term 5 at index 1. It refuses the candidate of term 5 whose
  log is empty, and grants the candidate of term 6 whose log ends with term 5 at index 1.
\<close>

theorem RequestVote_grant_rule_witness:
  "state cm_voter \<noteq> Dead \<and> LoadLevel_rv rvargs_empty_log \<noteq> 0 \<and>
   LoadLevel_rv rvargs_same_log \<noteq> 0 \<and>
   RequestVote cm_voter rvargs_empty_log rvreply0 =
     Inr (cm_voter, \<lparr>Term_rvr = 5, VoteGranted = False, LoadLevel_rvr = 0\<rparr>, [Sleep 25]) \<and>
   RequestVote cm_voter rvargs_same_log rvreply0 =
     Inr (cm_voter\<lparr>currentTerm := 6, votedFor := 3\<rparr>,
          \<lparr>Term_rvr = 6, VoteGranted = True, LoadLevel_rvr = 5\<rparr>, [Sleep 25])"
  using RequestVote_grant_rule [of cm_voter rvargs_empty_log rvreply0]
    RequestVote_grant_rule [of cm_voter rvargs_same_log rvreply0]
  by (simp add: cm_voter_def cm0_def rvargs_empty_log_def rvargs_same_log_def rvreply0_def
      RequestVote_def Let_def runVoteDelay_def go_div_def lastLogIndexAndTerm_def
      becomeFollower_def entry_def)

text \<open>
  The claim as worded speaks of every call of the handler. A Dead node meets all three
  conditions (term 2 on both sides, no vote given, both logs empty) and returns without
  granting: the reply is as the caller passed it. A request with load level zero ends in
  the division of the vote delay.
\<close>

theorem RequestVote_dead_node_grants_nothing:
  "state cm_dead = Dead \<and> Term_rv rvargs0 = currentTerm cm_dead \<and> votedFor cm_dead = - 1 \<and>
   log cm_dead = [] \<and> LastLogTerm rvargs0 = - 1 \<and> LastLogIndex rvargs0 = - 1 \<and>
   VoteGranted rvreply0 = False \<and>
   RequestVote cm_dead rvargs0 rvreply0 = Inr (cm_dead, rvreply0, []) \<and>
   RequestVote cm0 (rvargs0\<lparr>LoadLevel_rv := 0\<rparr>) rvreply0 = Inl DivideByZero"
  by (simp add: cm_dead_def cm0_def rvargs0_def rvreply0_def RequestVote_def Let_def
      runVoteDelay_def go_div_def lastLogIndexAndTerm_def)

section \<open>Election tally\<close>

text \<open>
  Claim C4, as amended. \<^verbatim>\<open>StartElection\<close> makes the node a Candidate with its own vote
  counted (\<open>votesReceived = 1\<close>). When a Candidate handles a reply that carries the
  saved term, the tally grows by one exactly on a grant, and the node becomes Leader
  exactly when that reply grants and the tally including it, doubled, exceeds the length
  of \<^verbatim>\<open>peerIds\<close> (the peer list, which leaves the node itself out); otherwise it
  stays Candidate. The threshold is tested only when a grant arrives.
\<close>

theorem onRequestVoteReply_majority:
  assumes cand: "state cm = Candidate" and same: "Term_rvr reply = savedCurrentTerm"
  shows "snd (snd (StartElection c)) = 1 \<and> state (fst (StartElection c)) = Candidate \<and>
     (let cm' = fst (onRequestVoteReply cm savedCurrentTerm votesReceived peerId reply);
          votes' = fst (snd (onRequestVoteReply cm savedCurrentTerm votesReceived peerId reply))
      in votes' = (if VoteGranted reply then votesReceived + 1 else votesReceived) \<and>
         (state cm' = Leader \<longleftrightarrow> VoteGranted reply \<and> votes' * 2 > int (length (peerIds cm))) \<and>
         (state cm' \<noteq> Leader \<longrightarrow> state cm' = Candidate) \<and>
         peerIds cm' = peerIds cm)"
  using cand same
  by (auto simp: onRequestVoteReply_def StartElection_def Let_def startLeader_def)

theorem onRequestVoteReply_majority_witness:
  "state (fst (StartElection cm0)) = Candidate \<and>
   Term_rvr \<lparr>Term_rvr = 3, VoteGranted = True, LoadLevel_rvr = 7\<rparr> =
     fst (snd (StartElection cm0)) \<and>
   snd (snd (StartElection cm0)) = 1 \<and>
   length (peerIds (fst (StartElection cm0))) = 2 \<and>
   state (fst (onRequestVoteReply (fst (StartElection cm0)) 3 1 2
            \<lparr>Term_rvr = 3, VoteGranted = True, LoadLevel_rvr = 7\<rparr>)) = Leader \<and>
   fst (snd (onRequestVoteReply (fst (StartElection cm0)) 3 1 2
            \<lparr>Term_rvr = 3, VoteGranted = True, LoadLevel_rvr = 7\<rparr>)) = 2 \<and>
   state (fst (onRequestVoteReply (fst (StartElection cm0)) 3 1 2
            \<lparr>Term_rvr = 3, VoteGranted = False, LoadLevel_rvr = 7\<rparr>)) = Candidate"
  using onRequestVoteReply_majority [of "fst (StartElection cm0)"
      "\<lparr>Term_rvr = 3, VoteGranted = True, LoadLevel_rvr = 7\<rparr>" 3 cm0 1 2]
    onRequestVoteReply_majority [of "fst (StartElection cm0)"
      "\<lparr>Term_rvr = 3, VoteGranted = False, LoadLevel_rvr = 7\<rparr>" 3 cm0 1 2]
  by (simp add: cm0_def StartElection_def Let_def int64_wrap_def)

text \<open>
  The claim as worded makes the node Leader whenever the tally, doubled, exceeds the peer
  count. In a cluster of two the peer list has one element, so the candidate's own vote
  already satisfies \<open>1 * 2 > 1\<close>; a reply at the saved term that denies the vote leaves
  the tally at 1 and the node a Candidate.
\<close>

theorem tally_majority_without_grant:
  "state cm_pair = Candidate \<and> Term_rvr rvreply_deny = 3 \<and> currentTerm cm_pair = 3 \<and>
   length (peerIds cm_pair) = 1 \<and>
   fst (snd (onRequestVoteReply cm_pair 3 1 2 rvreply_deny)) = 1 \<and>
   (1::int) * 2 > int (length (peerIds cm_pair)) \<and>
   state (fst (onRequestVoteReply cm_pair 3 1 2 rvreply_deny)) = Candidate"
  by (simp add: cm_pair_def cm0_def rvreply_deny_def onRequestVoteReply_def Let_def)

section \<open>Restore after a restart\<close>

lemma restoreLoop_Index:
  "restoreLoop n i rs acc = Inr lg \<Longrightarrow>
     length lg = length acc + length rs \<and>
     (\<forall>k < length rs. Index (lg ! (length acc + k)) = int n - int (i + k) - 1) \<and>
     take (length acc) lg = acc"
proof (induction rs arbitrary: i acc)
  case Nil
  then show ?case by simp
next
  case (Cons r rs)
  from Cons.prems obtain e where e: "restoreEntry n i r = Inr e"
      and rest: "restoreLoop n (Suc i) rs (acc @ [e]) = Inr lg"
    by (auto split: sum.splits)
  have ie: "Index e = int n - int i - 1"
    using e by (auto simp: restoreEntry_def split: sum.splits)
  from Cons.IH [OF rest] have len: "length lg = length acc + length (r # rs)"
    and idx: "\<forall>k < length rs. Index (lg ! (Suc (length acc) + k)) = int n - int (Suc i + k) - 1"
    and pre: "take (Suc (length acc)) lg = acc @ [e]"
    by simp_all
  have at: "lg ! length acc = e"
    using pre len by (metis length_append_singleton lessI nth_append_length nth_take)
  have "take (length acc) lg = acc"
    using pre by (metis append_eq_conv_conj length_append_singleton lessI less_or_eq_imp_le take_take min.absorb1 butlast_snoc butlast_take diff_Suc_1 len)
  moreover have "\<forall>k < length (r # rs). Index (lg ! (length acc + k)) = int n - int (i + k) - 1"
  proof (intro allI impI)
    fix k assume "k < length (r # rs)"
    show "Index (lg ! (length acc + k)) = int n - int (i + k) - 1"
    proof (cases k)
      case 0 then show ?thesis using at ie by simp
    next
      case (Suc k')
      then show ?thesis using idx \<open>k < length (r # rs)\<close> by simp
    qed
  qed
  ultimately show ?case using len by simp
qed

lemma restoreFromStorage_Index:
  assumes "log cm = []" and "restoreFromStorage st cm = Inr cm'"
  shows "length (log cm') = length (GetLog st) \<and>
     (\<forall>k < length (log cm'). Index (log cm' ! k) = int (length (log cm')) - int k - 1)"
proof -
  from assms(2) obtain lg where lg: "restoreLoop (length (GetLog st)) 0 (GetLog st) (log cm) = Inr lg"
      and cm': "log cm' = lg"
    by (auto simp: restoreFromStorage_def split: option.splits sum.splits)
  from restoreLoop_Index [OF lg] assms(1) cm' show ?thesis by simp
qed

lemma Submit_first_example:
  "\<exists>td. Submit env0 (cm0\<lparr>state := Leader\<rparr>) svcA = Inr (cm_one, [StorageSet td, TriggerAE, SubmitDone]) \<and>
      map td scalar_keys = map (stored_record 0 svcA) scalar_keys \<and>
      td ''Command'' = Some (VService svcA)"
  by (simp add: Submit_def minLoadLevelMap_def env0_def cm0_def cm_one_def map_get_def
      go_index_def persistToStorage_def termData_fields_def checkIfChosen_def Let_def
      scalar_keys_def stored_record_def Itoa_def Sprintf_x_def dec_nat.simps hex_nat.simps
      digit_char_def)

lemma Submit_second_example:
  "\<exists>td. Submit env0 cm_one svcB = Inr (cm_two, [StorageSet td, TriggerAE, SubmitDone]) \<and>
      map td scalar_keys = map (stored_record 1 svcB) scalar_keys \<and>
      td ''Command'' = Some (VService svcB)"
  by (simp add: Submit_def minLoadLevelMap_def env0_def cm0_def cm_one_def cm_two_def map_get_def
      go_index_def persistToStorage_def termData_fields_def checkIfChosen_def Let_def
      scalar_keys_def stored_record_def Itoa_def Sprintf_x_def dec_nat.simps hex_nat.simps
      digit_char_def)

lemma restore_example:
  "NewConsensusModule 1 store_two =
     Inr \<lparr>cm_id = 1, peerIds = [], loadLevel = 10, loadLevelMap = Map.empty,
          currentTerm = 2, votedFor = - 1,
          log = [\<lparr>Command = svcA, Term = 2, LeaderId = 1, Index = 1, ChosenId = 1\<rparr>,
                 \<lparr>Command = svcB, Term = 2, LeaderId = 1, Index = 0, ChosenId = 1\<rparr>],
          commitIndex = - 1, lastApplied = - 1, state = Follower,
          nextIndex = Map.empty, matchIndex = Map.empty\<rparr>"
  by (simp add: NewConsensusModule_def HasData_def store_two_def restoreFromStorage_def Get_def
      GetLog_def assertString_def assertObject_def restoreEntry_def stored_record_def
      Atoi_def ParseUint_def is_digit_def svcA_def svcB_def Let_def)

text \<open>
  Claim C5 at a concrete input. A leader of term 2 with an empty log accepts two
  commands; each \<^verbatim>\<open>Submit\<close> writes one record, and the log then holds the entries with
  \<open>Index\<close> 0 and 1. Restarted on the store that holds these two records in write order,
  \<^verbatim>\<open>NewConsensusModule\<close> restores the term, the vote, the commands and the entry terms,
  but gives the entry at position 0 the index 1 and the entry at position 1 the index 0
  (\<^verbatim>\<open>Index: len(logs)-i-1\<close>): the restored log is not the log before the restart.
\<close>

theorem restore_reverses_index:
  "(\<exists>td. Submit env0 (cm0\<lparr>state := Leader\<rparr>) svcA =
            Inr (cm_one, [StorageSet td, TriggerAE, SubmitDone]) \<and>
         map td scalar_keys = map (stored_record 0 svcA) scalar_keys \<and>
         td ''Command'' = Some (VService svcA)) \<and>
   (\<exists>td. Submit env0 cm_one svcB = Inr (cm_two, [StorageSet td, TriggerAE, SubmitDone]) \<and>
         map td scalar_keys = map (stored_record 1 svcB) scalar_keys \<and>
         td ''Command'' = Some (VService svcB)) \<and>
   map Index (log cm_two) = [0, 1] \<and>
   (\<exists>cm'. NewConsensusModule 1 store_two = Inr cm' \<and>
          currentTerm cm' = currentTerm cm_two \<and> votedFor cm' = votedFor cm_two \<and>
          map Command (log cm') = map Command (log cm_two) \<and>
          map Term (log cm') = map Term (log cm_two) \<and>
          map Index (log cm') = [1, 0] \<and>
          log cm' \<noteq> log cm_two)"
  using Submit_first_example Submit_second_example
  by (simp add: restore_example cm_two_def cm0_def)

section \<open>Commit dispatcher\<close>

lemma emitEntries_eq:
  "emitEntries t la i es =
     map (\<lambda>k. \<lparr>Command_ce = Command (es ! k), Index_ce = la + i + int k + 1,
                 Term_ce = t, ChosenId_ce = ChosenId (es ! k)\<rparr>) [0 ..< length es]"
proof (induction es arbitrary: i)
  case Nil
  show ?case by simp
next
  case (Cons e es)
  have "[0 ..< length (e # es)] = 0 # map Suc [0 ..< length es]"
    by (simp add: upt_conv_Cons map_Suc_upt del: upt_Suc)
  then show ?case
    using Cons.IH [of "i + 1"] by (simp add: comp_def algebra_simps)
qed

lemma upto_as_map:
  "a \<le> b + 1 \<Longrightarrow> [a .. b] = map (\<lambda>k. a + int k) [0 ..< nat (b - a + 1)]"
proof (induction "nat (b - a + 1)" arbitrary: b)
  case 0
  then have "b < a" by simp
  then show ?case using 0 by simp
next
  case (Suc n)
  then have le: "a \<le> b" and n: "n = nat (b - 1 - a + 1)" by auto
  have "[a .. b] = [a .. b - 1] @ [b]"
    using le by (simp add: upto_rec2)
  also have "[a .. b - 1] = map (\<lambda>k. a + int k) [0 ..< nat (b - 1 - a + 1)]"
    using Suc.hyps(1) [OF n] le by simp
  finally show ?case
    using le Suc.hyps(2) [symmetric] n by (simp add: nat_add_distrib)
qed

text \<open>
  Claim C6, as amended. With \<open>last_applied \<ge> -1\<close> and \<open>commit_index < len(log)\<close>, one
  round of the dispatcher reads \<open>log[last_applied+1 : commit_index+1]\<close>, moves
  \<open>last_applied\<close> up to \<open>commit_index\<close>, and sends one \<^verbatim>\<open>CommitEntry\<close> per position
  from \<open>last_applied + 1\<close> to \<open>commit_index\<close>, in ascending order and each position
  once: the entry's command and chosen id, the absolute position as index, and as term
  the node's current term read at the start of the round (not the term stored in the
  entry). A round started right after it sends nothing.
\<close>

theorem commitChanSender_batch:
  assumes la: "- 1 \<le> lastApplied cm" and ci: "commitIndex cm < int (length (log cm))"
  shows "commitChanSender env cm =
     Inr (cm\<lparr>lastApplied := max (lastApplied cm) (commitIndex cm)\<rparr>,
          map (sent_commit_entry cm) [lastApplied cm + 1 .. commitIndex cm]) \<and>
     commitChanSender env (cm\<lparr>lastApplied := max (lastApplied cm) (commitIndex cm)\<rparr>) =
     Inr (cm\<lparr>lastApplied := max (lastApplied cm) (commitIndex cm)\<rparr>, []) \<and>
     map Index_ce (map (sent_commit_entry cm) [lastApplied cm + 1 .. commitIndex cm]) =
       [lastApplied cm + 1 .. commitIndex cm]"
proof (cases "commitIndex cm > lastApplied cm")
  case False
  then show ?thesis
    by (simp add: commitChanSender_def Let_def max_def sent_commit_entry_def comp_def)
next
  case True
  define n where "n = nat (commitIndex cm - lastApplied cm)"
  have sl: "go_slice (log cm) (logSpare env) (lastApplied cm + 1) (commitIndex cm + 1) =
      Inr (take n (drop (nat (lastApplied cm + 1)) (log cm)))"
    using la ci True by (simp add: go_slice_def n_def)
  have len: "length (take n (drop (nat (lastApplied cm + 1)) (log cm))) = n"
    using la ci True by (simp add: n_def min_def) linarith
  have up: "[lastApplied cm + 1 .. commitIndex cm] =
      map (\<lambda>k. lastApplied cm + 1 + int k) [0 ..< n]"
    using upto_as_map [of "lastApplied cm + 1" "commitIndex cm"] True
    by (simp add: n_def)
  have nth: "take n (drop (nat (lastApplied cm + 1)) (log cm)) ! k =
      log cm ! nat (lastApplied cm + 1 + int k)" if "k < n" for k
    using that la ci True by (simp add: nat_add_distrib)
  have out: "emitEntries (currentTerm cm) (lastApplied cm) 0
        (take n (drop (nat (lastApplied cm + 1)) (log cm))) =
      map (sent_commit_entry cm) [lastApplied cm + 1 .. commitIndex cm]"
    unfolding emitEntries_eq len up map_map comp_def
  proof (rule map_cong [OF refl])
    fix k assume "k \<in> set [0 ..< n]"
    then have k: "k < n" by simp
    show "\<lparr>Command_ce = Command (take n (drop (nat (lastApplied cm + 1)) (log cm)) ! k),
           Index_ce = lastApplied cm + 0 + int k + 1, Term_ce = currentTerm cm,
           ChosenId_ce = ChosenId (take n (drop (nat (lastApplied cm + 1)) (log cm)) ! k)\<rparr> =
          sent_commit_entry cm (lastApplied cm + 1 + int k)"
      unfolding nth [OF k] by (simp add: sent_commit_entry_def)
  qed
  show ?thesis
    using True sl out
    by (simp add: commitChanSender_def Let_def max_def sent_commit_entry_def comp_def)
qed



theorem commitChanSender_batch_witness:
  "- 1 \<le> lastApplied cm_behind \<and> commitIndex cm_behind < int (length (log cm_behind)) \<and>
   commitChanSender env0 cm_behind =
     Inr (cm_behind\<lparr>lastApplied := 1\<rparr>,
          [\<lparr>Command_ce = svc, Index_ce = 0, Term_ce = 2, ChosenId_ce = 1\<rparr>,
           \<lparr>Command_ce = svc, Index_ce = 1, Term_ce = 2, ChosenId_ce = 1\<rparr>]) \<and>
   commitChanSender env0 (cm_behind\<lparr>lastApplied := 1\<rparr>) = Inr (cm_behind\<lparr>lastApplied := 1\<rparr>, [])"
  using commitChanSender_batch [of cm_behind env0]
  by (simp add: cm_behind_def cm0_def entry_def sent_commit_entry_def upto.simps)

text \<open>
  The claim has each emitted record carry the entry's own term. A node at term 2 with
  two committed entries of term 1 emits both with term 2.
\<close>

theorem commit_entry_term_is_current_term:
  "- 1 \<le> lastApplied cm_behind \<and> commitIndex cm_behind < int (length (log cm_behind)) \<and>
   commitChanSender env0 cm_behind =
     Inr (cm_behind\<lparr>lastApplied := 1\<rparr>,
          [\<lparr>Command_ce = svc, Index_ce = 0, Term_ce = 2, ChosenId_ce = 1\<rparr>,
           \<lparr>Command_ce = svc, Index_ce = 1, Term_ce = 2, ChosenId_ce = 1\<rparr>]) \<and>
   Term (log cm_behind ! 0) = 1 \<and> Term (log cm_behind ! 1) = 1 \<and>
   map (spec_commit_entry cm_behind) [lastApplied cm_behind + 1 .. commitIndex cm_behind] =
     [\<lparr>Command_ce = svc, Index_ce = 0, Term_ce = 1, ChosenId_ce = 1\<rparr>,
      \<lparr>Command_ce = svc, Index_ce = 1, Term_ce = 1, ChosenId_ce = 1\<rparr>]"
  by (simp add: cm_behind_def cm0_def entry_def spec_commit_entry_def upto.simps
      commitChanSender_def go_slice_def Let_def)

section \<open>Commit monotonicity\<close>

lemma commitLoop_frame:
  "commitLoop cm i = Inr cm' \<Longrightarrow>
     (commitIndex cm' = commitIndex cm \<or> i \<le> commitIndex cm') \<and>
     lastApplied cm' = lastApplied cm"
proof (induction cm i arbitrary: cm' rule: commitLoop.induct)
  case (1 cm i)
  show ?case
  proof (cases "i < int (length (log cm))")
    case False
    with "1.prems" show ?thesis
      by (subst (asm) commitLoop.simps) simp
  next
    case True
    from "1.prems" True obtain e where ix: "go_index (log cm) i = Inr e"
      by (subst (asm) commitLoop.simps) (auto split: sum.splits)
    define cm1 where "cm1 = (if Term e = currentTerm cm then
                  (if matchCountLoop (matchIndex cm) i (peerIds cm) 1 * 2 >
                      int (length (peerIds cm)) + 1
                   then cm\<lparr>commitIndex := i\<rparr> else cm)
                else cm)"
    have step: "commitLoop cm1 (i + 1) = Inr cm'"
      using "1.prems" True ix by (subst (asm) commitLoop.simps) (simp add: cm1_def)
    have IH: "(commitIndex cm' = commitIndex cm1 \<or> i + 1 \<le> commitIndex cm') \<and>
        lastApplied cm' = lastApplied cm1"
      using "1.IH" [OF True ix, folded cm1_def, OF step] .
    have "commitIndex cm1 = commitIndex cm \<or> commitIndex cm1 = i" "lastApplied cm1 = lastApplied cm"
      by (auto simp: cm1_def)
    with IH show ?thesis by auto
  qed
qed

lemma onAppendEntriesReply_monotone:
  "onAppendEntriesReply cm savedCurrentTerm peerId ni entries reply = Inr (cm', evs) \<Longrightarrow>
     commitIndex cm \<le> commitIndex cm' \<and> lastApplied cm' = lastApplied cm"
  by (auto simp: onAppendEntriesReply_def Let_def becomeFollower_def
      split: if_splits sum.splits dest!: commitLoop_frame)

lemma commitChanSender_monotone:
  "commitChanSender env cm = Inr (cm', out) \<Longrightarrow>
     commitIndex cm' = commitIndex cm \<and> lastApplied cm \<le> lastApplied cm' \<and>
     (lastApplied cm \<le> commitIndex cm \<longrightarrow> lastApplied cm' \<le> commitIndex cm')"
  by (auto simp: commitChanSender_def Let_def split: if_splits sum.splits)

lemma commitChanSender_returns:
  "commitIndex cm \<le> lastApplied cm \<or>
   (- 1 \<le> lastApplied cm \<and>
    commitIndex cm < int (length (log cm)) + int (length (logSpare env))) \<Longrightarrow>
   \<exists>cm' out. commitChanSender env cm = Inr (cm', out)"
  by (auto simp: commitChanSender_def Let_def go_slice_def)

lemma findInsertionPoint_result:
  "0 \<le> li0 \<Longrightarrow> 0 \<le> ni0 \<Longrightarrow> li0 \<le> int (length lg) \<Longrightarrow> ni0 \<le> int (length es) \<Longrightarrow>
   \<exists>li ni. findInsertionPoint lg es li0 ni0 = Inr (li, ni) \<and>
     li - li0 = ni - ni0 \<and> ni0 \<le> ni \<and> li \<le> int (length lg) \<and> ni \<le> int (length es) \<and>
     (ni < int (length es) \<and> li < int (length lg) \<longrightarrow>
        Term (lg ! nat li) \<noteq> Term (es ! nat ni)) \<and>
     (\<forall>k. ni0 \<le> k \<and> k < ni \<longrightarrow> Term (lg ! nat (li0 + (k - ni0))) = Term (es ! nat k))"
proof (induction lg es li0 ni0 rule: findInsertionPoint.induct)
  case (1 lg es li0 ni0)
  show ?case
  proof (cases "li0 \<ge> int (length lg) \<or> ni0 \<ge> int (length es)")
    case True
    then show ?thesis
      using "1.prems" by (subst findInsertionPoint.simps) auto
  next
    case False
    then have in_lg: "go_index lg li0 = Inr (lg ! nat li0)"
      and in_es: "go_index es ni0 = Inr (es ! nat ni0)"
      using "1.prems" by (simp_all add: go_index_def)
    show ?thesis
    proof (cases "Term (lg ! nat li0) \<noteq> Term (es ! nat ni0)")
      case True
      then show ?thesis
        using False in_lg in_es "1.prems" by (subst findInsertionPoint.simps) auto
    next
      case same: False
      have step: "findInsertionPoint lg es li0 ni0 = findInsertionPoint lg es (li0 + 1) (ni0 + 1)"
        using False in_lg in_es same by (subst findInsertionPoint.simps) simp
      from "1.IH" [OF False in_lg in_es] same "1.prems" False
      obtain li ni where r: "findInsertionPoint lg es (li0 + 1) (ni0 + 1) = Inr (li, ni)"
          "li - (li0 + 1) = ni - (ni0 + 1)" "ni0 + 1 \<le> ni" "li \<le> int (length lg)"
          "ni \<le> int (length es)"
          "ni < int (length es) \<and> li < int (length lg) \<longrightarrow> Term (lg ! nat li) \<noteq> Term (es ! nat ni)"
          "\<forall>k. ni0 + 1 \<le> k \<and> k < ni \<longrightarrow>
              Term (lg ! nat (li0 + 1 + (k - (ni0 + 1)))) = Term (es ! nat k)"
        by auto
      have all: "\<forall>k. ni0 \<le> k \<and> k < ni \<longrightarrow> Term (lg ! nat (li0 + (k - ni0))) = Term (es ! nat k)"
      proof (intro allI impI)
        fix k assume k: "ni0 \<le> k \<and> k < ni"
        show "Term (lg ! nat (li0 + (k - ni0))) = Term (es ! nat k)"
        proof (cases "k = ni0")
          case True then show ?thesis using same by simp
        next
          case False
          then have "ni0 + 1 \<le> k \<and> k < ni" using k by simp
          with r(7) have "Term (lg ! nat (li0 + 1 + (k - (ni0 + 1)))) = Term (es ! nat k)" by blast
          moreover have "li0 + 1 + (k - (ni0 + 1)) = li0 + (k - ni0)" by simp
          ultimately show ?thesis by simp
        qed
      qed
      show ?thesis
        unfolding step using r(1-6) all by auto
    qed
  qed
qed

lemma entries_agree_nth:
  "entries_agree lg prev es \<longleftrightarrow>
     (\<forall>k. k < length es \<and> nat (prev + 1) + k < length lg \<longrightarrow>
          Term (lg ! (nat (prev + 1) + k)) = Term (es ! k))"
  by (auto simp: entries_agree_def list_all_length)


lemma persistToStorage_returns:
  "log cm \<noteq> [] \<Longrightarrow> \<exists>td evs. persistToStorage env cm = Inr (td, evs)"
  by (cases "log cm") (auto simp: persistToStorage_def go_index_def Let_def)

lemma prevEntryMatches_True:
  "prevEntryMatches cm args = Inr True \<longleftrightarrow>
     PrevLogIndex args = - 1 \<or>
     (0 \<le> PrevLogIndex args \<and> PrevLogIndex args < int (length (log cm)) \<and>
      PrevLogTerm args = Term (log cm ! nat (PrevLogIndex args)))"
  by (auto simp: prevEntryMatches_def go_index_def)

lemma AppendEntries_matched_result:
  assumes pm: "prevEntryMatches cm args = Inr True"
  shows "\<exists>cm1 evs.
     AppendEntries_matched env cm args reply =
       Inr (cm1\<lparr>commitIndex :=
                 (if LeaderCommit args > commitIndex cm
                  then intMin (LeaderCommit args) (reconciled_length cm args - 1)
                  else commitIndex cm)\<rparr>,
            reply\<lparr>Success := True\<rparr>, evs) \<and>
     int (length (log cm1)) = reconciled_length cm args \<and>
     lastApplied cm1 = lastApplied cm"
proof -
  define es where "es = Entries args"
  define lg where "lg = log cm"
  define p where "p = PrevLogIndex args"
  have p: "- 1 \<le> p" "p + 1 \<le> int (length lg)"
    using pm by (auto simp: prevEntryMatches_True p_def lg_def)
  have "\<exists>li ni. findInsertionPoint lg es (p + 1) 0 = Inr (li, ni) \<and>
     li - (p + 1) = ni - 0 \<and> 0 \<le> ni \<and> li \<le> int (length lg) \<and> ni \<le> int (length es) \<and>
     (ni < int (length es) \<and> li < int (length lg) \<longrightarrow>
        Term (lg ! nat li) \<noteq> Term (es ! nat ni)) \<and>
     (\<forall>k. 0 \<le> k \<and> k < ni \<longrightarrow> Term (lg ! nat (p + 1 + (k - 0))) = Term (es ! nat k))"
    using p by (intro findInsertionPoint_result) simp_all
  then obtain li ni where raw: "findInsertionPoint lg es (p + 1) 0 = Inr (li, ni)"
      "li - (p + 1) = ni - 0" "0 \<le> ni" "li \<le> int (length lg)" "ni \<le> int (length es)"
      "ni < int (length es) \<and> li < int (length lg) \<longrightarrow> Term (lg ! nat li) \<noteq> Term (es ! nat ni)"
      "\<forall>k. 0 \<le> k \<and> k < ni \<longrightarrow> Term (lg ! nat (p + 1 + (k - 0))) = Term (es ! nat k)"
    by blast
  have r: "findInsertionPoint lg es (p + 1) 0 = Inr (li, ni)"
      "li = p + 1 + ni" "0 \<le> ni" "li \<le> int (length lg)" "ni \<le> int (length es)"
      "ni < int (length es) \<and> li < int (length lg) \<longrightarrow> Term (lg ! nat li) \<noteq> Term (es ! nat ni)"
      "\<forall>k. 0 \<le> k \<and> k < ni \<longrightarrow> Term (lg ! nat (p + 1 + k)) = Term (es ! nat k)"
    using raw by simp_all
  have eq_below: "Term (lg ! (nat (p + 1) + k)) = Term (es ! k)" if "int k < ni" for k
  proof -
    have "Term (lg ! nat (p + 1 + int k)) = Term (es ! nat (int k))"
      using r(7) that by simp
    moreover have "nat (p + 1 + int k) = nat (p + 1) + k" using p by simp
    ultimately show ?thesis by simp
  qed
  show ?thesis
  proof (cases "ni < int (length es)")
    case False
    then have ni: "ni = int (length es)" using r(5) by simp
    have agree: "entries_agree lg p es"
      unfolding entries_agree_nth using eq_below ni by auto
    have len: "reconciled_length cm args = int (length lg)"
      using agree r(2,4) ni
      by (simp add: reconciled_length_def lg_def [symmetric] es_def [symmetric] p_def [symmetric])
    show ?thesis
      using r(1) False len
      by (intro exI [of _ cm] exI [of _ "if LeaderCommit args > commitIndex cm then [NewCommitReady] else []"])
        (simp add: AppendEntries_matched_def lg_def [symmetric] es_def [symmetric] p_def [symmetric])
  next
    case True
    define new where "new = drop (nat ni) es"
    define keep where "keep = take (nat li) lg"
    have sl1: "go_slice_from es ni = Inr new"
      using r(3,5) by (simp add: go_slice_from_def new_def)
    have sl2: "go_slice lg (logSpare env) 0 li = Inr keep"
      using r(2,3,4) p by (simp add: go_slice_def keep_def)
    have new_ne: "new \<noteq> []" using True r(3) by (simp add: new_def)
    have len_new: "int (length (keep @ new)) = p + 1 + int (length es)"
      using r(2,3,4,5) p by (simp add: keep_def new_def min_def) linarith
    obtain td evs where ps: "persistToStorage env (cm\<lparr>log := keep @ new\<rparr>) = Inr (td, evs)"
      using persistToStorage_returns [of "cm\<lparr>log := keep @ new\<rparr>" env] new_ne by auto
    have len: "reconciled_length cm args = p + 1 + int (length es)"
    proof (cases "li < int (length lg)")
      case True
      with r(6) \<open>ni < int (length es)\<close> have ne: "Term (lg ! nat li) \<noteq> Term (es ! nat ni)" by simp
      have pos: "nat li = nat (p + 1) + nat ni" using r(2,3) p by simp
      have "\<not> entries_agree lg p es"
      proof
        assume agree: "entries_agree lg p es"
        have k1: "nat ni < length es" using \<open>ni < int (length es)\<close> r(3) by simp
        have "0 \<le> li" using r(2,3) p by simp
        then have "nat li < length lg" using True by (simp add: nat_less_iff)
        then have k2: "nat (p + 1) + nat ni < length lg" using pos by simp
        from agree k1 k2 have "Term (lg ! (nat (p + 1) + nat ni)) = Term (es ! nat ni)"
          unfolding entries_agree_nth by blast
        with ne pos show False by simp
      qed
      then show ?thesis
        by (simp add: reconciled_length_def lg_def [symmetric] es_def [symmetric] p_def [symmetric])
    next
      case False
      then have "li = int (length lg)" using r(4) by simp
      then have "int (length lg) \<le> p + 1 + int (length es)"
        using r(2) True by simp
      then show ?thesis
        by (simp add: reconciled_length_def lg_def [symmetric] es_def [symmetric] p_def [symmetric])
    qed
    show ?thesis
      using r(1) True sl1 sl2 ps len len_new
      by (intro exI [of _ "cm\<lparr>log := keep @ new\<rparr>"]
            exI [of _ "if LeaderCommit args > commitIndex cm then evs @ [NewCommitReady] else evs"])
        (simp add: AppendEntries_matched_def lg_def [symmetric] es_def [symmetric] p_def [symmetric])
  qed
qed


lemma prevEntryMatches_frame:
  "prevEntryMatches (state_update f cm) args = prevEntryMatches cm args"
  "prevEntryMatches (currentTerm_update g cm) args = prevEntryMatches cm args"
  "prevEntryMatches (votedFor_update h cm) args = prevEntryMatches cm args"
  by (simp_all add: prevEntryMatches_def)

lemma AppendEntries_live:
  assumes live: "state cm \<noteq> Dead" and notolder: "currentTerm cm \<le> Term_ae args"
  shows "\<exists>cm2. log cm2 = log cm \<and> commitIndex cm2 = commitIndex cm \<and>
      lastApplied cm2 = lastApplied cm \<and>
      AppendEntries env cm args reply =
      (case prevEntryMatches cm args of
         Inl p \<Rightarrow> Inl p
       | Inr True \<Rightarrow>
           (case AppendEntries_matched env cm2 args (reply\<lparr>Success := False\<rparr>) of
              Inl p \<Rightarrow> Inl p
            | Inr (cm3, reply2, evs) \<Rightarrow> Inr (cm3, reply2\<lparr>Term_aer := currentTerm cm3\<rparr>, evs))
       | Inr False \<Rightarrow>
           (case AppendEntries_conflict cm2 args (reply\<lparr>Success := False\<rparr>) of
              Inl p \<Rightarrow> Inl p
            | Inr reply2 \<Rightarrow> Inr (cm2, reply2\<lparr>Term_aer := currentTerm cm2\<rparr>, [])))"
proof (cases "Term_ae args > currentTerm cm")
  case True
  then show ?thesis
    using live
    by (intro exI [of _ "cm\<lparr>state := Follower, currentTerm := Term_ae args, votedFor := - 1\<rparr>"])
      (simp add: AppendEntries_def Let_def prevEntryMatches_frame becomeFollower_def)
next
  case False
  with notolder have eq: "Term_ae args = currentTerm cm" by simp
  show ?thesis
  proof (cases "state cm = Follower")
    case True
    then show ?thesis
      using live eq by (intro exI [of _ cm]) (simp add: AppendEntries_def Let_def)
  next
    case False
    then show ?thesis
      using live eq
      by (intro exI [of _ "cm\<lparr>state := Follower, votedFor := - 1\<rparr>"])
        (simp add: AppendEntries_def Let_def prevEntryMatches_frame becomeFollower_def)
  qed
qed

lemma reconciled_length_frame:
  "log cm2 = log cm \<Longrightarrow> reconciled_length cm2 args = reconciled_length cm args"
  by (simp add: reconciled_length_def)

lemma prevEntryMatches_log:
  "log cm2 = log cm \<Longrightarrow> prevEntryMatches cm2 args = prevEntryMatches cm args"
  by (simp add: prevEntryMatches_def)

lemma AppendEntries_accepted:
  assumes live: "state cm \<noteq> Dead" and notolder: "currentTerm cm \<le> Term_ae args"
    and pm: "prevEntryMatches cm args = Inr True"
  shows "\<exists>cm' reply' evs. AppendEntries env cm args reply = Inr (cm', reply', evs) \<and>
      Success reply' \<and> lastApplied cm' = lastApplied cm \<and>
      int (length (log cm')) = reconciled_length cm args \<and>
      commitIndex cm' =
        (if LeaderCommit args > commitIndex cm
         then intMin (LeaderCommit args) (reconciled_length cm args - 1)
         else commitIndex cm)"
proof -
  from AppendEntries_live [OF live notolder, of env reply] pm
  obtain cm2 where cm2: "log cm2 = log cm" "commitIndex cm2 = commitIndex cm"
      "lastApplied cm2 = lastApplied cm"
    and run: "AppendEntries env cm args reply =
      (case AppendEntries_matched env cm2 args (reply\<lparr>Success := False\<rparr>) of
         Inl p \<Rightarrow> Inl p
       | Inr (cm3, reply2, evs) \<Rightarrow> Inr (cm3, reply2\<lparr>Term_aer := currentTerm cm3\<rparr>, evs))"
    by auto
  have pm2: "prevEntryMatches cm2 args = Inr True"
    using pm prevEntryMatches_log [OF cm2(1), of args] by simp
  from AppendEntries_matched_result [OF pm2, of env "reply\<lparr>Success := False\<rparr>"]
  obtain cm1 evs where m: "AppendEntries_matched env cm2 args (reply\<lparr>Success := False\<rparr>) =
       Inr (cm1\<lparr>commitIndex :=
                 (if LeaderCommit args > commitIndex cm2
                  then intMin (LeaderCommit args) (reconciled_length cm2 args - 1)
                  else commitIndex cm2)\<rparr>,
            reply\<lparr>Success := False\<rparr>\<lparr>Success := True\<rparr>, evs)"
      "int (length (log cm1)) = reconciled_length cm2 args" "lastApplied cm1 = lastApplied cm2"
    by blast
  have rl: "reconciled_length cm2 args = reconciled_length cm args"
    by (rule reconciled_length_frame [OF cm2(1)])
  show ?thesis
    unfolding run m(1)
    using m(2,3) cm2 rl by simp
qed

lemma AppendEntries_commit_result:
  assumes run: "AppendEntries env cm args reply = Inr (cm', reply', evs)"
  shows "lastApplied cm' = lastApplied cm \<and>
     (commitIndex cm' = commitIndex cm \<or>
      (LeaderCommit args > commitIndex cm \<and>
       commitIndex cm' = intMin (LeaderCommit args) (reconciled_length cm args - 1)))"
proof (cases "state cm = Dead \<or> Term_ae args < currentTerm cm")
  case True
  then have "AppendEntries env cm args reply = Inr (cm, reply, []) \<or>
      AppendEntries env cm args reply =
        Inr (cm, reply\<lparr>Success := False, Term_aer := currentTerm cm\<rparr>, [])"
    by (cases "state cm = Dead") (simp_all add: AppendEntries_def Let_def)
  with run show ?thesis by auto
next
  case False
  then have live: "state cm \<noteq> Dead" and notolder: "currentTerm cm \<le> Term_ae args" by auto
  from AppendEntries_live [OF live notolder, of env reply]
  obtain cm2 where cm2: "log cm2 = log cm" "commitIndex cm2 = commitIndex cm"
      "lastApplied cm2 = lastApplied cm"
    and unf: "AppendEntries env cm args reply =
      (case prevEntryMatches cm args of
         Inl p \<Rightarrow> Inl p
       | Inr True \<Rightarrow>
           (case AppendEntries_matched env cm2 args (reply\<lparr>Success := False\<rparr>) of
              Inl p \<Rightarrow> Inl p
            | Inr (cm3, reply2, evs) \<Rightarrow> Inr (cm3, reply2\<lparr>Term_aer := currentTerm cm3\<rparr>, evs))
       | Inr False \<Rightarrow>
           (case AppendEntries_conflict cm2 args (reply\<lparr>Success := False\<rparr>) of
              Inl p \<Rightarrow> Inl p
            | Inr reply2 \<Rightarrow> Inr (cm2, reply2\<lparr>Term_aer := currentTerm cm2\<rparr>, [])))"
    by blast
  show ?thesis
  proof (cases "prevEntryMatches cm args")
    case (Inl p)
    with run unf show ?thesis by simp
  next
    case (Inr b)
    show ?thesis
    proof (cases b)
      case False
      with Inr run unf cm2 show ?thesis by (auto split: sum.splits)
    next
      case True
      with Inr have pm: "prevEntryMatches cm args = Inr True" by simp
      from AppendEntries_accepted [OF live notolder pm, of env reply] run
      show ?thesis by auto
    qed
  qed
qed

text \<open>
  Claim C7, as amended. Whenever the step returns: the leader's handling of an
  AppendEntries reply never lowers \<open>commit_index\<close> and leaves \<open>last_applied\<close> alone. A
  round of the commit dispatcher leaves \<open>commit_index\<close> alone, never lowers
  \<open>last_applied\<close> and keeps \<open>last_applied \<le> commit_index\<close>; it returns whenever
  \<open>commit_index \<le> last_applied\<close>, or \<open>last_applied \<ge> -1\<close> and \<open>commit_index\<close> lies
  within the capacity of the log's backing array. The AppendEntries handler never lowers
  \<open>commit_index\<close>, and leaves \<open>last_applied\<close> alone, for every request with
  \<open>leader_commit \<le> commit_index\<close>, or with \<open>commit_index \<le> prev_log_index +
  len(entries)\<close>, or, on a node with \<open>commit_index < len(log)\<close>, with no entry that
  conflicts in term with the local entry at its position. In the remaining case, a node
  that is not Dead accepts (term not below its own, previous entry matching) a request
  with \<open>leader_commit > commit_index > prev_log_index + len(entries)\<close> of which an
  entry conflicts: it cuts the log and sets \<open>commit_index\<close> to \<open>prev_log_index +
  len(entries)\<close>, below its old value.
\<close>

theorem commit_index_monotone:
  "(\<forall>cm' evs. onAppendEntriesReply cm savedCurrentTerm peerId ni entries reply = Inr (cm', evs) \<longrightarrow>
       commitIndex cm \<le> commitIndex cm' \<and> lastApplied cm' = lastApplied cm) \<and>
   (\<forall>cm' out. commitChanSender env cm = Inr (cm', out) \<longrightarrow>
       commitIndex cm' = commitIndex cm \<and> lastApplied cm \<le> lastApplied cm' \<and>
       (lastApplied cm \<le> commitIndex cm \<longrightarrow> lastApplied cm' \<le> commitIndex cm')) \<and>
   (commitIndex cm \<le> lastApplied cm \<or>
    (- 1 \<le> lastApplied cm \<and>
     commitIndex cm < int (length (log cm)) + int (length (logSpare env))) \<longrightarrow>
       (\<exists>cm' out. commitChanSender env cm = Inr (cm', out))) \<and>
   (\<forall>cm' reply' evs. AppendEntries env cm args areply = Inr (cm', reply', evs) \<and>
       (LeaderCommit args \<le> commitIndex cm \<or>
        commitIndex cm \<le> PrevLogIndex args + int (length (Entries args)) \<or>
        (commitIndex cm < int (length (log cm)) \<and>
         entries_agree (log cm) (PrevLogIndex args) (Entries args))) \<longrightarrow>
       commitIndex cm \<le> commitIndex cm' \<and> lastApplied cm' = lastApplied cm) \<and>
   (state cm \<noteq> Dead \<and> currentTerm cm \<le> Term_ae args \<and>
    prevEntryMatches cm args = Inr True \<and>
    commitIndex cm < LeaderCommit args \<and>
    PrevLogIndex args + int (length (Entries args)) < commitIndex cm \<and>
    \<not> entries_agree (log cm) (PrevLogIndex args) (Entries args) \<longrightarrow>
       (\<exists>cm' reply' evs. AppendEntries env cm args areply = Inr (cm', reply', evs) \<and>
          Success reply' \<and>
          commitIndex cm' = PrevLogIndex args + int (length (Entries args)) \<and>
          commitIndex cm' < commitIndex cm \<and> lastApplied cm' = lastApplied cm))"
proof (intro conjI allI impI)
  fix cm' evs
  assume "onAppendEntriesReply cm savedCurrentTerm peerId ni entries reply = Inr (cm', evs)"
  from onAppendEntriesReply_monotone [OF this]
  show "commitIndex cm \<le> commitIndex cm'" "lastApplied cm' = lastApplied cm" by simp_all
next
  fix cm' out
  assume r: "commitChanSender env cm = Inr (cm', out)"
  from commitChanSender_monotone [OF r]
  show "commitIndex cm' = commitIndex cm" "lastApplied cm \<le> lastApplied cm'" by simp_all
  assume "lastApplied cm \<le> commitIndex cm"
  with commitChanSender_monotone [OF r] show "lastApplied cm' \<le> commitIndex cm'" by simp
next
  assume "commitIndex cm \<le> lastApplied cm \<or>
    (- 1 \<le> lastApplied cm \<and>
     commitIndex cm < int (length (log cm)) + int (length (logSpare env)))"
  then show "\<exists>cm' out. commitChanSender env cm = Inr (cm', out)"
    by (rule commitChanSender_returns)
next
  fix cm' reply' evs
  assume a: "AppendEntries env cm args areply = Inr (cm', reply', evs) \<and>
       (LeaderCommit args \<le> commitIndex cm \<or>
        commitIndex cm \<le> PrevLogIndex args + int (length (Entries args)) \<or>
        (commitIndex cm < int (length (log cm)) \<and>
         entries_agree (log cm) (PrevLogIndex args) (Entries args)))"
  then have run: "AppendEntries env cm args areply = Inr (cm', reply', evs)" by simp
  from AppendEntries_commit_result [OF run]
  have la: "lastApplied cm' = lastApplied cm"
    and ci: "commitIndex cm' = commitIndex cm \<or>
      (LeaderCommit args > commitIndex cm \<and>
       commitIndex cm' = intMin (LeaderCommit args) (reconciled_length cm args - 1))"
    by simp_all
  show "lastApplied cm' = lastApplied cm" by (rule la)
  have "commitIndex cm \<le> reconciled_length cm args - 1"
    if "LeaderCommit args > commitIndex cm"
    using a that by (auto simp: reconciled_length_def)
  with ci show "commitIndex cm \<le> commitIndex cm'"
    by (auto simp: intMin_def)
next
  assume a: "state cm \<noteq> Dead \<and> currentTerm cm \<le> Term_ae args \<and>
    prevEntryMatches cm args = Inr True \<and>
    commitIndex cm < LeaderCommit args \<and>
    PrevLogIndex args + int (length (Entries args)) < commitIndex cm \<and>
    \<not> entries_agree (log cm) (PrevLogIndex args) (Entries args)"
  then have live: "state cm \<noteq> Dead" and notolder: "currentTerm cm \<le> Term_ae args"
    and pm: "prevEntryMatches cm args = Inr True" by simp_all
  from AppendEntries_accepted [OF live notolder pm, of env areply] a
  show "\<exists>cm' reply' evs. AppendEntries env cm args areply = Inr (cm', reply', evs) \<and>
          Success reply' \<and>
          commitIndex cm' = PrevLogIndex args + int (length (Entries args)) \<and>
          commitIndex cm' < commitIndex cm \<and> lastApplied cm' = lastApplied cm"
    by (auto simp: reconciled_length_def intMin_def)
qed

lemmas AppendEntries_eval =
  AppendEntries_def AppendEntries_matched_def prevEntryMatches_def findInsertionPoint.simps
  persistToStorage_def go_index_def go_slice_def go_slice_from_def intMin_def Let_def

lemma AppendEntries_overwrite_example:
  "\<exists>evs. AppendEntries env0 cm_applied aeargs_overwrite aereply0 =
     Inr (cm_applied\<lparr>log := [entry 2 0], commitIndex := 0\<rparr>,
          \<lparr>Term_aer = 2, Success = True, ConflictIndex = 0, ConflictTerm = 0\<rparr>, evs)"
  by (simp add: cm_applied_def cm0_def env0_def aeargs_overwrite_def aereply0_def entry_def
      AppendEntries_eval)

lemma AppendEntries_extend_example:
  "\<exists>evs. AppendEntries env0 cm_applied aeargs_extend aereply0 =
     Inr (cm_applied\<lparr>log := [entry 1 0, entry 1 1, entry 1 2, entry 2 3], commitIndex := 3\<rparr>,
          \<lparr>Term_aer = 2, Success = True, ConflictIndex = 0, ConflictTerm = 0\<rparr>, evs)"
  by (simp add: cm_applied_def cm0_def env0_def aeargs_extend_def aereply0_def entry_def
      AppendEntries_eval)

lemma commitChanSender_spare_example:
  "commitChanSender env_spare cm_short =
     Inr (cm_short\<lparr>lastApplied := 2\<rparr>,
          [\<lparr>Command_ce = svc, Index_ce = 0, Term_ce = 2, ChosenId_ce = 1\<rparr>,
           \<lparr>Command_ce = svc, Index_ce = 1, Term_ce = 2, ChosenId_ce = 1\<rparr>,
           \<lparr>Command_ce = svc, Index_ce = 2, Term_ce = 2, ChosenId_ce = 1\<rparr>])"
  by (simp add: commitChanSender_def cm_short_def env_spare_def env0_def cm0_def go_slice_def
      Let_def entry_def)

text \<open>
  The leader of term 2 moves its commit index from \<open>-1\<close> to 2. The dispatcher, with
  the commit index one past the log but within the backing array, returns and leaves
  the commit index at 2. A follower with commit index 2 and three entries accepts a
  fourth entry and moves to 3; the same follower accepts a request that replaces its
  log from position 0 by one entry of another term and falls to 0.
\<close>

theorem commit_index_monotone_witness:
  "(\<exists>cm' evs. onAppendEntriesReply cm_leader 2 2 0 (log cm_leader) aereply_ok = Inr (cm', evs) \<and>
       commitIndex cm_leader = - 1 \<and> commitIndex cm' = 2 \<and>
       lastApplied cm' = lastApplied cm_leader) \<and>
   (- 1 \<le> lastApplied cm_short \<and>
    commitIndex cm_short < int (length (log cm_short)) + int (length (logSpare env_spare)) \<and>
    int (length (log cm_short)) \<le> commitIndex cm_short \<and>
    (\<exists>cm' out. commitChanSender env_spare cm_short = Inr (cm', out) \<and>
       commitIndex cm' = 2 \<and> lastApplied cm_short \<le> commitIndex cm_short \<and>
       lastApplied cm' \<le> commitIndex cm')) \<and>
   (\<exists>cm' reply' evs. AppendEntries env0 cm_applied aeargs_extend aereply0 = Inr (cm', reply', evs) \<and>
       commitIndex cm_applied \<le> PrevLogIndex aeargs_extend + int (length (Entries aeargs_extend)) \<and>
       commitIndex cm_applied = 2 \<and> commitIndex cm' = 3 \<and>
       lastApplied cm' = lastApplied cm_applied) \<and>
   (state cm_applied \<noteq> Dead \<and> currentTerm cm_applied \<le> Term_ae aeargs_overwrite \<and>
    prevEntryMatches cm_applied aeargs_overwrite = Inr True \<and>
    commitIndex cm_applied < LeaderCommit aeargs_overwrite \<and>
    PrevLogIndex aeargs_overwrite + int (length (Entries aeargs_overwrite)) < commitIndex cm_applied \<and>
    entries_agree (log cm_applied) (PrevLogIndex aeargs_overwrite) (Entries aeargs_overwrite) = False \<and>
    (\<exists>cm' reply' evs. AppendEntries env0 cm_applied aeargs_overwrite aereply0 = Inr (cm', reply', evs) \<and>
       commitIndex cm' = 0))"
proof -
  obtain evs where ae: "AppendEntries env0 cm_applied aeargs_extend aereply0 =
     Inr (cm_applied\<lparr>log := [entry 1 0, entry 1 1, entry 1 2, entry 2 3], commitIndex := 3\<rparr>,
          \<lparr>Term_aer = 2, Success = True, ConflictIndex = 0, ConflictTerm = 0\<rparr>, evs)"
    using AppendEntries_extend_example by blast
  obtain evs' where ao: "AppendEntries env0 cm_applied aeargs_overwrite aereply0 =
     Inr (cm_applied\<lparr>log := [entry 2 0], commitIndex := 0\<rparr>,
          \<lparr>Term_aer = 2, Success = True, ConflictIndex = 0, ConflictTerm = 0\<rparr>, evs')"
    using AppendEntries_overwrite_example by blast
  have le: "onAppendEntriesReply cm_leader 2 2 0 (log cm_leader) aereply_ok =
     Inr (cm_leader\<lparr>nextIndex := [2 \<mapsto> 3, 3 \<mapsto> 0], matchIndex := [2 \<mapsto> 2, 3 \<mapsto> - 1],
                    commitIndex := 2\<rparr>, [NewCommitReady, TriggerAE])"
    by (simp add: onAppendEntriesReply_def cm_leader_def cm0_def aereply_ok_def Let_def
        commitLoop.simps go_index_def entry_def map_get_def fun_upd_twist)
  have pm: "prevEntryMatches cm_applied aeargs_overwrite = Inr True"
    by (simp add: prevEntryMatches_def aeargs_overwrite_def)
  have na: "entries_agree (log cm_applied) (PrevLogIndex aeargs_overwrite)
      (Entries aeargs_overwrite) = False"
    by (simp add: entries_agree_def cm_applied_def cm0_def aeargs_overwrite_def entry_def)
  show ?thesis
    using commit_index_monotone [of cm_leader 2 2 0 "log cm_leader" aereply_ok env0
        aeargs_extend aereply0]
      commit_index_monotone [of cm_short 2 2 0 "[]" aereply_ok env_spare aeargs_extend aereply0]
      commit_index_monotone [of cm_applied 2 2 0 "[]" aereply_ok env0 aeargs_extend aereply0]
      commit_index_monotone [of cm_applied 2 2 0 "[]" aereply_ok env0 aeargs_overwrite aereply0]
    unfolding ae ao le commitChanSender_spare_example pm na
    by (simp add: cm_applied_def cm_short_def cm_leader_def cm0_def env_spare_def env0_def
        aeargs_extend_def aeargs_overwrite_def)
qed

text \<open>
  The claim as worded has \<open>commit_index\<close> never decrease. A follower that has committed
  and applied three entries of term 1 receives, at its current term, a request that
  replaces the log from position 0 by one entry of term 2 and announces
  \<open>leader_commit = 3\<close>. The handler truncates, and sets
  \<open>commit_index = min(3, len(log) - 1) = 0\<close>, below the old value 2 and below
  \<open>last_applied = 2\<close>.
\<close>

theorem commit_index_can_decrease:
  "state cm_applied \<noteq> Dead \<and> commitIndex cm_applied = 2 \<and>
   lastApplied cm_applied \<le> commitIndex cm_applied \<and>
   (\<exists>cm' reply' evs. AppendEntries env0 cm_applied aeargs_overwrite aereply0 = Inr (cm', reply', evs) \<and>
       Success reply' \<and> commitIndex cm' = 0 \<and> commitIndex cm' < commitIndex cm_applied \<and>
       lastApplied cm' = 2 \<and> commitIndex cm' < lastApplied cm')"
proof -
  obtain evs where ae: "AppendEntries env0 cm_applied aeargs_overwrite aereply0 =
     Inr (cm_applied\<lparr>log := [entry 2 0], commitIndex := 0\<rparr>,
          \<lparr>Term_aer = 2, Success = True, ConflictIndex = 0, ConflictTerm = 0\<rparr>, evs)"
    using AppendEntries_overwrite_example by blast
  show ?thesis
    unfolding ae by (simp add: cm_applied_def cm0_def)
qed

section \<open>The checksum of a record\<close>

lemmas persist_eval =
  persistToStorage_def termData_fields_def checksum_input_def range_values_def
  List.map_filter_simps go_index_def checkIfChosen_def Let_def
  Itoa_def Sprintf_x_def dec_nat.simps hex_nat.simps digit_char_def braces_def

text \<open>
  Claim C8 at a concrete input. \<^verbatim>\<open>persistToStorage\<close> hashes the values of
  \<^verbatim>\<open>termData\<close> in the order in which \<^verbatim>\<open>range\<close> visits the map. For one and the same
  node state (term 2, no vote, one entry), a visit in the order Id, Term, Command,
  Leader, Chosen, VotedFor hashes \<open>02{alpha run}11-1\<close>, a visit in the reverse order
  hashes \<open>-111{alpha run}20\<close>: whatever the hash function, the stored checksum is the
  digest of a different byte string.
\<close>

theorem checksum_depends_on_map_order:
  "\<forall>H. (\<exists>td evs. persistToStorage (env0\<lparr>sha512 := H\<rparr>) cm_one = Inr (td, evs) \<and>
            td ''checksum'' = Some (VString (Sprintf_x_bytes (H ''02{alpha run}11-1'')))) \<and>
       (\<exists>td evs. persistToStorage
                    (env0\<lparr>sha512 := H, termDataOrder := rev (termDataOrder env0)\<rparr>) cm_one =
              Inr (td, evs) \<and>
            td ''checksum'' = Some (VString (Sprintf_x_bytes (H ''-111{alpha run}20''))))"
  by (simp add: persist_eval env0_def cm_one_def cm0_def svcA_def)

section \<open>Submit\<close>

text \<open>
  Claim C9. \<^verbatim>\<open>Submit\<close> on a node that is not Leader changes nothing of the node, calls
  the store not at all, and signals \<^verbatim>\<open>SubmitChan\<close>. On a Leader, once the placement
  selector has returned \<open>chosenId\<close>, it appends the one entry \<open>{command, currentTerm, id,
  old log length, chosenId}\<close>, writes the record of that entry to the store, and only then
  signals \<^verbatim>\<open>triggerAEChan\<close> and \<^verbatim>\<open>SubmitChan\<close>. (The selector itself panics on a
  Leader whose load map gives it no peer; the call then ends in that panic.)
\<close>

theorem Submit_leader_or_noop:
  "(state cm \<noteq> Leader \<longrightarrow> Submit env cm command = Inr (cm, [SubmitDone])) \<and>
   (state cm = Leader \<longrightarrow>
      (\<forall>p. minLoadLevelMap env cm = Inl p \<longrightarrow> Submit env cm command = Inl p) \<and>
      (\<forall>chosenId. minLoadLevelMap env cm = Inr chosenId \<longrightarrow>
         (\<exists>td. Submit env cm command =
            Inr (cm\<lparr>log := log cm @
                      [\<lparr>Command = command, Term = currentTerm cm, LeaderId = cm_id cm,
                        Index = int (length (log cm)), ChosenId = chosenId\<rparr>]\<rparr>,
                 StorageSet td #
                 (if cm_id cm = chosenId then [] else [GoSendService]) @
                 [TriggerAE, SubmitDone]) \<and>
            td ''Id'' = Some (VString (Sprintf_x (int (length (log cm))))))))"
  by (auto simp: Submit_def persistToStorage_def go_index_def Let_def checkIfChosen_def
      termData_fields_def split: sum.splits)

theorem Submit_leader_or_noop_witness:
  "state cm0 \<noteq> Leader \<and> Submit env0 cm0 svc = Inr (cm0, [SubmitDone]) \<and>
   state (cm0\<lparr>state := Leader\<rparr>) = Leader \<and>
   minLoadLevelMap env0 (cm0\<lparr>state := Leader\<rparr>) = Inr 1 \<and>
   (\<exists>td. Submit env0 (cm0\<lparr>state := Leader\<rparr>) svc =
      Inr (cm0\<lparr>state := Leader,
               log := [\<lparr>Command = svc, Term = 2, LeaderId = 1, Index = 0, ChosenId = 1\<rparr>]\<rparr>,
           [StorageSet td, TriggerAE, SubmitDone]))"
proof -
  have sel: "minLoadLevelMap env0 (cm0\<lparr>state := Leader\<rparr>) = Inr 1"
    by (simp add: minLoadLevelMap_def env0_def cm0_def map_get_def go_index_def)
  show ?thesis
    using Submit_leader_or_noop [of cm0 env0 svc]
      Submit_leader_or_noop [of "cm0\<lparr>state := Leader\<rparr>" env0 svc] sel
    by (auto simp: cm0_def)
qed

end
